theory Spec2Isabelle
  imports Complex_Main "HOL-Library.Word"
begin

section \<open>JavaScript strings\<close>

text \<open>
  A JavaScript string is a sequence of UTF-16 code units; \<open>length\<close>, \<open>substring\<close>,
  \<open>trim\<close> and a regular expression without the \<open>u\<close> flag all work on code units.
\<close>

type_synonym jschar = "16 word"
type_synonym jsstring = "jschar list"

text \<open>An ASCII literal as a JavaScript string.\<close>

definition js :: "string \<Rightarrow> jsstring" where
  "js s = map (of_nat \<circ> of_char) s"

text \<open>The character class \<open>[.!?]\<close> of the sentence pattern.\<close>

definition isPunct :: "jschar \<Rightarrow> bool" where
  "isPunct c = (c = 0x2E \<or> c = 0x21 \<or> c = 0x3F)"

text \<open>
  ECMAScript LineTerminator: LF, CR, LS, PS. The pattern character \<open>.\<close> (no \<open>s\<close> flag)
  matches every code unit but these.
\<close>

definition isLineTerminator :: "jschar \<Rightarrow> bool" where
  "isLineTerminator c = (c = 0xA \<or> c = 0xD \<or> c = 0x2028 \<or> c = 0x2029)"

text \<open>
  ECMAScript WhiteSpace and LineTerminator: what \<open>\s\<close> matches and what
  \<open>String.prototype.trim\<close> strips.
\<close>

definition isSpace :: "jschar \<Rightarrow> bool" where
  "isSpace c =
     (c = 0x9 \<or> c = 0xA \<or> c = 0xB \<or> c = 0xC \<or> c = 0xD \<or> c = 0x20 \<or> c = 0xA0 \<or>
      c = 0x1680 \<or> (0x2000 \<le> c \<and> c \<le> 0x200A) \<or> c = 0x2028 \<or> c = 0x2029 \<or>
      c = 0x202F \<or> c = 0x205F \<or> c = 0x3000 \<or> c = 0xFEFF)"

definition trim :: "jsstring \<Rightarrow> jsstring" where
  "trim s = rev (dropWhile isSpace (rev (dropWhile isSpace s)))"

text \<open>
  \<open>s.substring(a, b)\<close>: both indices are clamped to the length and swapped when
  \<open>a > b\<close>.
\<close>

definition substring :: "jsstring \<Rightarrow> nat \<Rightarrow> nat \<Rightarrow> jsstring" where
  "substring s a b =
     (let n = length s; a' = min a n; b' = min b n; lo = min a' b'; hi = max a' b'
      in take (hi - lo) (drop lo s))"

section \<open>The sentence pattern\<close>

text \<open>
  \<open>/[^.!?]+[.!?]*\s*|.+/g\<close>. A match attempt at the start of \<open>s\<close> tries the first
  alternative, then the second; every quantifier is greedy and nothing follows the last
  one, so the first attempt of each alternative is its longest and never backtracks.
  The result is the matched text and the rest of the subject.
\<close>

definition alt1 :: "jsstring \<Rightarrow> (jsstring \<times> jsstring) option" where
  "alt1 s =
     (let a = takeWhile (\<lambda>c. \<not> isPunct c) s; r1 = dropWhile (\<lambda>c. \<not> isPunct c) s
      in if a = [] then None
         else let b = takeWhile isPunct r1; r2 = dropWhile isPunct r1;
                  w = takeWhile isSpace r2; r3 = dropWhile isSpace r2
              in Some (a @ b @ w, r3))"

definition alt2 :: "jsstring \<Rightarrow> (jsstring \<times> jsstring) option" where
  "alt2 s =
     (let d = takeWhile (\<lambda>c. \<not> isLineTerminator c) s
      in if d = [] then None else Some (d, dropWhile (\<lambda>c. \<not> isLineTerminator c) s))"

definition execAt :: "jsstring \<Rightarrow> (jsstring \<times> jsstring) option" where
  "execAt s = (case alt1 s of Some r \<Rightarrow> Some r | None \<Rightarrow> alt2 s)"

lemma alt1_shorter: "alt1 s = Some (m, r) \<Longrightarrow> length r < length s"
proof -
  assume h: "alt1 s = Some (m, r)"
  let ?np = "\<lambda>c. \<not> isPunct c"
  from h have ne: "takeWhile ?np s \<noteq> []"
    by (auto simp: alt1_def Let_def split: if_splits)
  from h have r: "r = dropWhile isSpace (dropWhile isPunct (dropWhile ?np s))"
    by (auto simp: alt1_def Let_def split: if_splits)
  have "length (takeWhile ?np s) + length (dropWhile ?np s) = length s"
    by (metis length_append takeWhile_dropWhile_id)
  with ne have "length (dropWhile ?np s) < length s"
    by (cases "takeWhile ?np s") auto
  moreover have "length r \<le> length (dropWhile ?np s)"
    unfolding r by (meson length_dropWhile_le le_trans)
  ultimately show ?thesis by simp
qed

lemma alt2_shorter: "alt2 s = Some (m, r) \<Longrightarrow> length r < length s"
proof -
  assume h: "alt2 s = Some (m, r)"
  let ?nl = "\<lambda>c. \<not> isLineTerminator c"
  from h have ne: "takeWhile ?nl s \<noteq> []" and r: "r = dropWhile ?nl s"
    by (auto simp: alt2_def Let_def split: if_splits)
  have "length (takeWhile ?nl s) + length (dropWhile ?nl s) = length s"
    by (metis length_append takeWhile_dropWhile_id)
  with ne show ?thesis unfolding r by (cases "takeWhile ?nl s") auto
qed

lemma execAt_shorter: "execAt s = Some (m, r) \<Longrightarrow> length r < length s"
  by (auto simp: execAt_def split: option.splits dest: alt1_shorter alt2_shorter)

text \<open>
  \<open>text.match(re) || []\<close> with the \<open>g\<close> flag: all matches, left to right, each search
  starting where the previous match ended; a position where no alternative matches is
  skipped. No match at all gives \<open>null\<close>, which \<open>|| []\<close> turns into the empty list.
\<close>

function matchAll :: "jsstring \<Rightarrow> jsstring list" where
  "matchAll s =
     (if s = [] then []
      else case execAt s of
             Some (m, rest) \<Rightarrow> m # matchAll rest
           | None \<Rightarrow> matchAll (tl s))"
  by pat_completeness auto
termination
  by (relation "measure length") (auto dest: execAt_shorter)

declare matchAll.simps [simp del]

section \<open>chunkText\<close>

text \<open>
  The inner loop \<open>for (let i = 0; i < sentence.length; i += maxLength)\<close>, pushing
  \<open>sentence.substring(i, i + maxLength)\<close>. With \<open>maxLength = 0\<close> it never ends: the
  value is \<open>None\<close> then.
\<close>

partial_function (option) hardSplit ::
  "jsstring \<Rightarrow> nat \<Rightarrow> nat \<Rightarrow> jsstring list \<Rightarrow> jsstring list option" where
  "hardSplit sentence maxLength i chunks =
     (if i < length sentence
      then hardSplit sentence maxLength (i + maxLength)
             (chunks @ [substring sentence i (i + maxLength)])
      else Some chunks)"

declare hardSplit.simps [code]

text \<open>\<open>if (currentChunk) chunks.push(currentChunk)\<close>: the empty string is falsy.\<close>

definition pushIfNonEmpty :: "jsstring list \<Rightarrow> jsstring \<Rightarrow> jsstring list" where
  "pushIfNonEmpty chunks currentChunk =
     (if currentChunk \<noteq> [] then chunks @ [currentChunk] else chunks)"

text \<open>The loop over the sentences; the state is \<open>(chunks, currentChunk)\<close>.\<close>

fun chunkLoop ::
  "nat \<Rightarrow> jsstring list \<Rightarrow> jsstring list \<times> jsstring \<Rightarrow> (jsstring list \<times> jsstring) option" where
  "chunkLoop maxLength [] st = Some st"
| "chunkLoop maxLength (sentence # rest) (chunks, currentChunk) =
     (if length sentence > maxLength then
        (case hardSplit sentence maxLength 0 (pushIfNonEmpty chunks currentChunk) of
           None \<Rightarrow> None
         | Some chunks' \<Rightarrow> chunkLoop maxLength rest (chunks', []))
      else if length (currentChunk @ sentence) > maxLength then
        chunkLoop maxLength rest (pushIfNonEmpty chunks currentChunk, sentence)
      else chunkLoop maxLength rest (chunks, currentChunk @ sentence))"

definition chunkText :: "jsstring \<Rightarrow> nat \<Rightarrow> jsstring list option" where
  "chunkText text maxLength =
     (case chunkLoop maxLength (matchAll text) ([], []) of
        None \<Rightarrow> None
      | Some (chunks, currentChunk) \<Rightarrow>
          Some (filter (\<lambda>c. length (trim c) > 0) (pushIfNonEmpty chunks currentChunk)))"


section \<open>The realtime session (useLiveAudio)\<close>

subsection \<open>Data\<close>

text \<open>The type \<open>Transcript\<close>: its fields \<open>id\<close>, \<open>text\<close> and \<open>source\<close>.\<close>

datatype TranscriptSource = User | Model | User_interim | Model_interim

record Transcript =
  t_id :: jsstring
  t_text :: jsstring
  t_source :: TranscriptSource

text \<open>
  The template literal \<open>`t_${n}`\<close>: the decimal digits of the counter after \<open>t_\<close>.
  The counter is a JavaScript number, exact below \<open>2^53\<close>; it is a natural number here.
\<close>

fun digitsOf :: "nat \<Rightarrow> jsstring" where
  "digitsOf n =
     (if n < 10 then [of_nat (48 + n)] else digitsOf (n div 10) @ [of_nat (48 + n mod 10)])"

declare digitsOf.simps [simp del]

definition transcriptId :: "nat \<Rightarrow> jsstring" where
  "transcriptId n = js ''t_'' @ digitsOf n"

text \<open>Exceptions a handler can raise.\<close>

datatype exn = TypeError | InvalidStateError | DecodeError

text \<open>
  A handler's outcome: the state it leaves and the exception that ended it, if any. The
  handlers are \<open>async\<close> callbacks: an exception rejects the handler's promise, and the
  mutations made before it stay.
\<close>

type_synonym 'a outcome = "'a \<times> exn option"

fun andThen :: "'a outcome \<Rightarrow> ('a \<Rightarrow> 'a outcome) \<Rightarrow> 'a outcome" where
  "andThen (s, None) f = f s"
| "andThen (s, Some e) f = (s, Some e)"

text \<open>
  \<open>Promise<LiveSession>\<close>: it resolves to a session, whose \<open>close()\<close> may throw, or
  it rejects.
\<close>

datatype SessionPromise = Resolves (closeThrows: bool) | Rejects

datatype ContextState = Running | Suspended | Closed

text \<open>
  An \<open>AudioBufferSourceNode\<close>: the duration of its buffer and the time \<open>start\<close> was
  called with (\<open>None\<close> before \<open>start\<close>). \<open>stop()\<close> on a node never started raises
  \<open>InvalidStateError\<close>. Times are seconds on the context's clock; the rounding of
  double arithmetic is not modelled.
\<close>

record AudioSource =
  duration :: real
  startedAt :: "real option"

text \<open>A function call of a tool-call message: \<open>id\<close>, \<open>name\<close> and \<open>args\<close> are optional;
  \<open>args\<close>, when present, may hold a \<open>content\<close> string (\<open>fc_args\<close> is \<open>None\<close> without
  \<open>args\<close>, \<open>Some None\<close> without \<open>args.content\<close>). The acknowledgment sent back has the
  call's \<open>id\<close> and \<open>name\<close> and the text of \<open>response.result\<close>.\<close>

record FunctionCall =
  fc_id :: "jsstring option"
  fc_name :: "jsstring option"
  fc_args :: "jsstring option option"

record FunctionResponse =
  fr_id :: "jsstring option"
  fr_name :: "jsstring option"
  fr_result :: jsstring

text \<open>
  The part of a \<open>LiveServerMessage\<close> the handler reads: \<open>toolCall?.functionCalls\<close>,
  \<open>serverContent?.inputTranscription\<close> and \<open>outputTranscription\<close> (each with an optional
  \<open>text\<close>), \<open>turnComplete\<close>, \<open>modelTurn?.parts?.[0]?.inlineData?.data\<close>, \<open>interrupted\<close>.
\<close>

record LiveServerMessage =
  toolCall :: "FunctionCall list option"
  inputTranscription :: "jsstring option option"
  outputTranscription :: "jsstring option option"
  turnComplete :: bool
  inlineData :: "jsstring option"
  interrupted :: bool

text \<open>What a call of \<open>playAudio\<close> reads from outside: the context's clock, and the decoded
  buffer's duration (\<open>None\<close> when decoding throws).\<close>

record AudioEnv =
  currentTime :: real
  decodeResult :: "real option"

text \<open>Calls that leave the hook, in the order made.\<close>

datatype AudioEvent = SourceStart real real | SourceStop

datatype Release =
  SessionClose | TracksStop | ProcessorDisconnect | SourceNodeDisconnect
  | InputContextClose | OutputContextClose

text \<open>
  The hook's state: its \<open>useState\<close> values, its refs, and the calls made so far to the
  scratchpad callback, on the channel, on the audio output and on the owned resources.
\<close>

record live_state =
  isConnecting :: bool
  isConnected :: bool
  transcriptHistory :: "Transcript list"
  currentUserUtterance :: jsstring
  currentModelUtterance :: jsstring
  error :: "jsstring option"
  sessionPromiseRef :: "SessionPromise option"
  mediaStreamRef :: "unit option"
  inputAudioContextRef :: "ContextState option"
  outputAudioContextRef :: "ContextState option"
  scriptProcessorRef :: "unit option"
  sourceNodeRef :: "unit option"
  nextStartTimeRef :: real
  audioSourcesRef :: "AudioSource list"
  audioLevelRef :: real
  transcriptIdCounter :: nat
  userUtteranceRef :: jsstring
  modelUtteranceRef :: jsstring
  scratchpadCalls :: "jsstring list"
  toolResponses :: "FunctionResponse list"
  audioLog :: "AudioEvent list"
  releaseLog :: "Release list"

definition initialState :: live_state where
  "initialState =
     \<lparr> isConnecting = False, isConnected = False, transcriptHistory = [],
       currentUserUtterance = [], currentModelUtterance = [], error = None,
       sessionPromiseRef = None, mediaStreamRef = None, inputAudioContextRef = None,
       outputAudioContextRef = None, scriptProcessorRef = None, sourceNodeRef = None,
       nextStartTimeRef = 0, audioSourcesRef = [], audioLevelRef = 0,
       transcriptIdCounter = 0, userUtteranceRef = [], modelUtteranceRef = [],
       scratchpadCalls = [], toolResponses = [], audioLog = [], releaseLog = [] \<rparr>"

subsection \<open>Playback\<close>

definition playAudio :: "live_state \<Rightarrow> jsstring \<Rightarrow> AudioEnv \<Rightarrow> live_state outcome" where
  "playAudio s base64Audio env =
     (case outputAudioContextRef s of
        None \<Rightarrow> (s, None)
      | Some ctx \<Rightarrow>
          let s1 = (if ctx = Suspended then s\<lparr>outputAudioContextRef := Some Running\<rparr> else s);
              s2 = s1\<lparr>nextStartTimeRef := max (nextStartTimeRef s1) (currentTime env)\<rparr>
          in case decodeResult env of
               None \<Rightarrow> (s2, Some DecodeError)
             | Some d \<Rightarrow>
                 let source = \<lparr>duration = d, startedAt = Some (nextStartTimeRef s2)\<rparr>
                 in (s2\<lparr>audioLog := audioLog s2 @ [SourceStart (nextStartTimeRef s2) d],
                        nextStartTimeRef := nextStartTimeRef s2 + d,
                        audioSourcesRef := audioSourcesRef s2 @ [source]\<rparr>, None))"

text \<open>\<open>audioSourcesRef.current.forEach(source => source.stop())\<close>: the first node that
  throws ends the loop, and the function.\<close>

fun stopEach :: "live_state \<Rightarrow> AudioSource list \<Rightarrow> live_state outcome" where
  "stopEach s [] = (s, None)"
| "stopEach s (source # rest) =
     (if startedAt source = None then (s, Some InvalidStateError)
      else stopEach (s\<lparr>audioLog := audioLog s @ [SourceStop]\<rparr>) rest)"

definition stopAllPlayback :: "live_state \<Rightarrow> live_state outcome" where
  "stopAllPlayback s =
     andThen (stopEach s (audioSourcesRef s))
       (\<lambda>s1. (s1\<lparr>audioSourcesRef := [], nextStartTimeRef := 0\<rparr>, None))"

subsection \<open>Committing utterances\<close>

definition commitFinalUtterances :: "live_state \<Rightarrow> live_state" where
  "commitFinalUtterances s =
     (let (finalTranscripts, c1) =
            (if userUtteranceRef s \<noteq> []
             then ([\<lparr>t_id = transcriptId (transcriptIdCounter s + 1),
                      t_text = userUtteranceRef s, t_source = User\<rparr>],
                   transcriptIdCounter s + 1)
             else ([], transcriptIdCounter s));
          (finalTranscripts, c2) =
            (if modelUtteranceRef s \<noteq> []
             then (finalTranscripts @ [\<lparr>t_id = transcriptId (c1 + 1),
                      t_text = modelUtteranceRef s, t_source = Model\<rparr>], c1 + 1)
             else (finalTranscripts, c1))
      in s\<lparr>transcriptIdCounter := c2,
            transcriptHistory :=
              (if length finalTranscripts > 0 then transcriptHistory s @ finalTranscripts
               else transcriptHistory s),
            userUtteranceRef := [], modelUtteranceRef := [],
            currentUserUtterance := [], currentModelUtterance := []\<rparr>)"

text \<open>The \<open>turnComplete\<close> branch of \<open>onmessage\<close>.\<close>

definition turnCompleteHandler :: "live_state \<Rightarrow> live_state" where
  "turnCompleteHandler s =
     (let finalUserText = trim (userUtteranceRef s);
          finalModelText = trim (modelUtteranceRef s);
          (transcriptsToAdd, c1) =
            (if finalUserText \<noteq> []
             then ([\<lparr>t_id = transcriptId (transcriptIdCounter s + 1),
                      t_text = finalUserText, t_source = User\<rparr>],
                   transcriptIdCounter s + 1)
             else ([], transcriptIdCounter s));
          (transcriptsToAdd, c2) =
            (if finalModelText \<noteq> []
             then (transcriptsToAdd @ [\<lparr>t_id = transcriptId (c1 + 1),
                      t_text = finalModelText, t_source = Model\<rparr>], c1 + 1)
             else (transcriptsToAdd, c1))
      in s\<lparr>transcriptIdCounter := c2,
            transcriptHistory :=
              (if length transcriptsToAdd > 0 then transcriptHistory s @ transcriptsToAdd
               else transcriptHistory s),
            userUtteranceRef := [], modelUtteranceRef := []\<rparr>)"

subsection \<open>Teardown and start\<close>

text \<open>
  \<open>if (ref.current?.state !== 'closed') await ref.current?.close().catch(console.error)\<close>:
  nothing happens without a context or with a closed one; a rejection is swallowed.
\<close>

definition closeContext :: "ContextState option \<Rightarrow> ContextState option \<times> bool" where
  "closeContext ref =
     (case ref of None \<Rightarrow> (None, False)
      | Some st \<Rightarrow> if st \<noteq> Closed then (Some Closed, True) else (Some Closed, False))"

text \<open>\<open>stopSession\<close>, run to its end without another callback in between. The
  \<open>try\<close> around the session's close catches both a rejected promise and a throwing
  \<open>close()\<close>.\<close>

definition stopSession :: "live_state \<Rightarrow> live_state outcome" where
  "stopSession s =
     (let s1 = (case sessionPromiseRef s of
                  None \<Rightarrow> s
                | Some Rejects \<Rightarrow> s
                | Some (Resolves throws) \<Rightarrow> s\<lparr>releaseLog := releaseLog s @ [SessionClose]\<rparr>);
          s2 = s1\<lparr>sessionPromiseRef := None\<rparr>;
          s3 = (case mediaStreamRef s2 of
                  None \<Rightarrow> s2
                | Some _ \<Rightarrow> s2\<lparr>releaseLog := releaseLog s2 @ [TracksStop]\<rparr>);
          s4 = s3\<lparr>mediaStreamRef := None\<rparr>;
          s5 = (case scriptProcessorRef s4 of
                  None \<Rightarrow> s4
                | Some _ \<Rightarrow> s4\<lparr>releaseLog := releaseLog s4 @ [ProcessorDisconnect],
                               scriptProcessorRef := None\<rparr>);
          s6 = (case sourceNodeRef s5 of
                  None \<Rightarrow> s5
                | Some _ \<Rightarrow> s5\<lparr>releaseLog := releaseLog s5 @ [SourceNodeDisconnect],
                               sourceNodeRef := None\<rparr>);
          (inCtx, inClosed) = closeContext (inputAudioContextRef s6);
          s7 = s6\<lparr>inputAudioContextRef := inCtx,
                  releaseLog := releaseLog s6 @ (if inClosed then [InputContextClose] else [])\<rparr>
      in andThen (stopAllPlayback s7)
           (\<lambda>s8. let (outCtx, outClosed) = closeContext (outputAudioContextRef s8);
                      s9 = s8\<lparr>outputAudioContextRef := outCtx,
                              releaseLog := releaseLog s8 @
                                (if outClosed then [OutputContextClose] else [])\<rparr>;
                      s10 = s9\<lparr>audioLevelRef := 0, isConnected := False, isConnecting := False\<rparr>
                  in (commitFinalUtterances s10, None)))"

text \<open>What \<open>startSession\<close> meets outside: whether the microphone is granted (otherwise
  \<open>getUserMedia\<close> rejects), and the promise \<open>live.connect\<close> returns.\<close>

record StartEnv =
  userMediaGranted :: bool
  connectResult :: SessionPromise
  failureMessage :: jsstring

definition startSession :: "live_state \<Rightarrow> StartEnv \<Rightarrow> live_state" where
  "startSession s env =
     (let s1 = s\<lparr>isConnecting := True, error := None, transcriptHistory := [],
                 userUtteranceRef := [], modelUtteranceRef := [],
                 currentUserUtterance := [], currentModelUtterance := [],
                 transcriptIdCounter := 0\<rparr>;
          s2 = (if outputAudioContextRef s1 = None \<or> outputAudioContextRef s1 = Some Closed
                then s1\<lparr>outputAudioContextRef := Some Running\<rparr> else s1);
          s3 = (if outputAudioContextRef s2 = Some Suspended
                then s2\<lparr>outputAudioContextRef := Some Running\<rparr> else s2)
      in if userMediaGranted env
         then s3\<lparr>mediaStreamRef := Some (), inputAudioContextRef := Some Running,
                 sessionPromiseRef := Some (connectResult env)\<rparr>
         else fst (stopSession (s3\<lparr>error := Some (failureMessage env), isConnecting := False\<rparr>)))"

subsection \<open>Channel callbacks\<close>

definition onopen :: "live_state \<Rightarrow> live_state" where
  "onopen s =
     (let s1 = s\<lparr>isConnecting := False, isConnected := True\<rparr>
      in if inputAudioContextRef s1 = None \<or> mediaStreamRef s1 = None then s1
         else s1\<lparr>sourceNodeRef := Some (), scriptProcessorRef := Some ()\<rparr>)"

text \<open>A value is truthy as a condition: a string when it is not empty, \<open>undefined\<close> never.\<close>

definition truthy :: "jsstring option \<Rightarrow> bool" where
  "truthy v = (case v of None \<Rightarrow> False | Some t \<Rightarrow> t \<noteq> [])"

text \<open>\<open>ref += text\<close>: an \<open>undefined\<close> text is appended as the string \<open>undefined\<close>.\<close>

definition textOf :: "jsstring option \<Rightarrow> jsstring" where
  "textOf v = (case v of None \<Rightarrow> js ''undefined'' | Some t \<Rightarrow> t)"

text \<open>
  The loop over \<open>message.toolCall.functionCalls\<close>. \<open>fc.args.content\<close> is read only when
  the name matches, and raises \<open>TypeError\<close> when \<open>args\<close> is missing. The acknowledgment
  goes through \<open>sessionPromiseRef.current?.then\<close>: it is sent when the ref holds a
  promise that resolves.
\<close>

fun handleToolCalls :: "live_state \<Rightarrow> FunctionCall list \<Rightarrow> live_state outcome" where
  "handleToolCalls s [] = (s, None)"
| "handleToolCalls s (fc # rest) =
     (if fc_name fc = Some (js ''addToScratchpad'') then
        (case fc_args fc of
           None \<Rightarrow> (s, Some TypeError)
         | Some content \<Rightarrow>
             if truthy content then
               let s1 = s\<lparr>scratchpadCalls := scratchpadCalls s @ [textOf content]\<rparr>;
                   s2 = (case sessionPromiseRef s1 of
                           Some (Resolves _) \<Rightarrow>
                             s1\<lparr>toolResponses := toolResponses s1 @
                                  [\<lparr>fr_id = fc_id fc, fr_name = fc_name fc,
                                    fr_result = js ''ok, content added.''\<rparr>]\<rparr>
                         | _ \<Rightarrow> s1)
               in handleToolCalls s2 rest
             else handleToolCalls s rest)
      else handleToolCalls s rest)"

text \<open>
  \<open>onmessage\<close>, block by block: the tool calls; the partial transcriptions, appended
  to the buffers; the turn-complete commit; the inline audio and the interruption.
\<close>

definition toolCallPart :: "live_state \<Rightarrow> LiveServerMessage \<Rightarrow> live_state outcome" where
  "toolCallPart s message =
     (case toolCall message of None \<Rightarrow> (s, None) | Some fcs \<Rightarrow> handleToolCalls s fcs)"

definition transcriptionPart :: "live_state \<Rightarrow> LiveServerMessage \<Rightarrow> live_state" where
  "transcriptionPart s message =
     (let s2 = (case inputTranscription message of
                  None \<Rightarrow> s
                | Some t \<Rightarrow> s\<lparr>userUtteranceRef := userUtteranceRef s @ textOf t\<rparr>)
      in case outputTranscription message of
           None \<Rightarrow> s2
         | Some t \<Rightarrow> s2\<lparr>modelUtteranceRef := modelUtteranceRef s2 @ textOf t\<rparr>)"

definition playbackPart ::
  "live_state \<Rightarrow> LiveServerMessage \<Rightarrow> AudioEnv \<Rightarrow> live_state outcome" where
  "playbackPart s message env =
     andThen (if truthy (inlineData message)
              then playAudio s (textOf (inlineData message)) env else (s, None))
       (\<lambda>s5. if interrupted message then stopAllPlayback s5 else (s5, None))"

definition onmessage :: "live_state \<Rightarrow> LiveServerMessage \<Rightarrow> AudioEnv \<Rightarrow> live_state outcome" where
  "onmessage s message env =
     andThen (toolCallPart s message)
       (\<lambda>s1. let s3 = transcriptionPart s1 message;
                 s4 = (if turnComplete message then turnCompleteHandler s3 else s3)
             in playbackPart s4 message env)"

definition onerror :: "live_state \<Rightarrow> jsstring \<Rightarrow> live_state outcome" where
  "onerror s msg = stopSession (s\<lparr>error := Some msg\<rparr>)"

definition onclose :: "live_state \<Rightarrow> live_state outcome" where
  "onclose s = stopSession s"

text \<open>The \<open>ended\<close> listener of the \<open>i\<close>-th source still in the set: the source leaves
  the set.\<close>

definition sourceEnded :: "live_state \<Rightarrow> nat \<Rightarrow> live_state" where
  "sourceEnded s i =
     s\<lparr>audioSourcesRef := take i (audioSourcesRef s) @ drop (Suc i) (audioSourcesRef s)\<rparr>"

text \<open>The capture callback, as far as the state goes: \<open>level\<close> is the root mean square
  it computes over the frame.\<close>

definition onaudioprocess :: "live_state \<Rightarrow> real \<Rightarrow> live_state" where
  "onaudioprocess s level = s\<lparr>audioLevelRef := level\<rparr>"

text \<open>The events of a session's life, and the state each leaves. An exception of a
  callback is an unhandled rejection: the state stays as the callback left it.\<close>

datatype LiveEvent =
  Start StartEnv | Open | Message LiveServerMessage AudioEnv | ChannelError jsstring
  | ChannelClose | Stop | SourceEnded nat | AudioProcess real

fun liveStep :: "live_state \<Rightarrow> LiveEvent \<Rightarrow> live_state" where
  "liveStep s (Start env) = startSession s env"
| "liveStep s Open = onopen s"
| "liveStep s (Message m env) = fst (onmessage s m env)"
| "liveStep s (ChannelError msg) = fst (onerror s msg)"
| "liveStep s ChannelClose = fst (onclose s)"
| "liveStep s Stop = fst (stopSession s)"
| "liveStep s (SourceEnded i) = sourceEnded s i"
| "liveStep s (AudioProcess level) = onaudioprocess s level"

definition liveRun :: "live_state \<Rightarrow> LiveEvent list \<Rightarrow> live_state" where
  "liveRun s evs = foldl liveStep s evs"

fun isStart :: "LiveEvent \<Rightarrow> bool" where
  "isStart (Start _) = True"
| "isStart _ = False"

text \<open>A run of \<open>playAudio\<close> calls, one after the other; a call that raises leaves the
  later calls to run.\<close>

fun playAudioSeq :: "live_state \<Rightarrow> (jsstring \<times> AudioEnv) list \<Rightarrow> live_state" where
  "playAudioSeq s [] = s"
| "playAudioSeq s ((base64Audio, env) # rest) = playAudioSeq (fst (playAudio s base64Audio env)) rest"

section \<open>Read aloud (ChatInterface)\<close>

datatype TtsStatus = Idle | Fetching | Playing

text \<open>
  What a run does outside and the clicks on the read-aloud control it meets, in the order
  they happen from the moment the log is empty: a synthesis request, a click that
  cancels, a click that finds the status idle while the run is still in flight (it
  starts another run), a source started or stopped, the failure notice.
\<close>

datatype TtsEvent =
  SynthRequest jsstring | CancelInvoked | RestartClick | TtsSourceStart real real
  | TtsSourceStop | Alert

record tts_state =
  ttsStatus :: TtsStatus
  activeSentenceIndex :: "nat option"
  ttsAudioContextRef :: "ContextState option"
  ttsAudioSourcesRef :: "AudioSource list"
  nextTtsStartTimeRef :: real
  isCancelledRef :: bool
  ttsLog :: "TtsEvent list"

text \<open>\<open>source.stop()\<close> in a \<open>try\<close> whose \<open>catch\<close> ignores the error: a node never
  started is passed over.\<close>

definition stopTtsPlayback :: "tts_state \<Rightarrow> tts_state" where
  "stopTtsPlayback s =
     s\<lparr>isCancelledRef := True,
        ttsLog := ttsLog s @
          map (\<lambda>_. TtsSourceStop) (filter (\<lambda>source. startedAt source \<noteq> None) (ttsAudioSourcesRef s)),
        ttsAudioSourcesRef := [],
        nextTtsStartTimeRef := 0,
        ttsStatus := Idle,
        activeSentenceIndex := None\<rparr>"

text \<open>
  \<open>cancel()\<close>: what the first two branches of \<open>handleReadAloud\<close> do, a call of
  \<open>stopTtsPlayback\<close>; the click is noted in the log.
\<close>

definition cancelClick :: "tts_state \<Rightarrow> tts_state" where
  "cancelClick s = stopTtsPlayback (s\<lparr>ttsLog := ttsLog s @ [CancelInvoked]\<rparr>)"

text \<open>\<open>contextText.split('\n')\<close>.\<close>

fun splitOn :: "jschar \<Rightarrow> jsstring \<Rightarrow> jsstring list" where
  "splitOn sep [] = [[]]"
| "splitOn sep (c # cs) =
     (if c = sep then [] # splitOn sep cs
      else case splitOn sep cs of l # ls \<Rightarrow> (c # l) # ls | [] \<Rightarrow> [[c]])"

text \<open>
  The text to read: the selection when there is one, not collapsed and not white space
  only (\<open>selection\<close> is its text then, \<open>None\<close> otherwise); else the sentences from the
  active one on; else the whole text.
\<close>

definition resolveText :: "jsstring \<Rightarrow> jsstring option \<Rightarrow> nat option \<Rightarrow> jsstring" where
  "resolveText contextText selection activeIndex =
     (let sentences = concat (map matchAll (splitOn 0xA contextText))
      in case selection of
           Some sel \<Rightarrow>
             if length (trim sel) > 0 then sel
             else (case activeIndex of
                     Some i \<Rightarrow> if i < length sentences \<and> sentences ! i \<noteq> []
                               then concat (drop i sentences) else contextText
                   | None \<Rightarrow> contextText)
         | None \<Rightarrow>
             (case activeIndex of
                Some i \<Rightarrow> if i < length sentences \<and> sentences ! i \<noteq> []
                          then concat (drop i sentences) else contextText
              | None \<Rightarrow> contextText))"

definition TTS_CHARACTER_LIMIT :: nat where
  "TTS_CHARACTER_LIMIT = 5000"

text \<open>
  \<open>handleReadAloud\<close> with the status idle, up to its loop: the state it leaves and the
  chunks the loop will go through, none when it returns before the loop (nothing to
  read, or no chunk); \<open>None\<close> when \<open>chunkText\<close> never returns. With a text to read the
  flag, which all runs share, is set to false.
\<close>

definition startRun ::
  "tts_state \<Rightarrow> jsstring \<Rightarrow> jsstring option \<Rightarrow> (tts_state \<times> jsstring list) option" where
  "startRun s contextText selection =
     (let textToRead = resolveText contextText selection (activeSentenceIndex s)
      in if textToRead = [] then Some (s, [])
         else
           let s1 = s\<lparr>isCancelledRef := False, ttsStatus := Fetching\<rparr>
           in case chunkText textToRead TTS_CHARACTER_LIMIT of
                None \<Rightarrow> None
              | Some chunks \<Rightarrow>
                  if length chunks = 0 then Some (s1\<lparr>ttsStatus := Idle\<rparr>, [])
                  else Some (s1\<lparr>nextTtsStartTimeRef := 0\<rparr>, chunks))"

text \<open>
  While a run awaits (a synthesis request, the decoding of its audio) the page handles
  other events. A click on the read-aloud control calls \<open>handleReadAloud\<close> again, with
  the text and the selection of that moment: with the status fetching or playing it
  cancels; with the status idle it starts another run, of which the part up to its loop
  is run here and noted in the log (what the other run does from its first request on is
  not followed; \<open>chunkText\<close> returns for this limit, so the case \<open>None\<close> below is never
  taken). A click on a sentence (\<open>handleSentenceClick\<close>; \<open>i\<close> is the overall
  index it computes) stops the playback when the status is not idle, and else makes the
  sentence the active one, or none when it was. A click on \<open>New Context\<close> stops the
  playback; these two stops are noted in the log as cancels. The \<open>onended\<close> listener of
  the \<open>k\<close>-th source of the set (\<open>queueAndPlayAudio\<close> installs it) takes the source out
  of the set, and with the set empty and the flag down sets the status idle and clears
  the active sentence; for a source no longer in the set only that test is left.
\<close>

datatype PageEvent =
  ReadAloudClick jsstring "jsstring option" | SentenceClick nat | NewContextClick
  | TtsSourceEnded nat

definition readAloudClick :: "tts_state \<Rightarrow> jsstring \<Rightarrow> jsstring option \<Rightarrow> tts_state" where
  "readAloudClick s contextText selection =
     (if ttsStatus s = Fetching then cancelClick s
      else if ttsStatus s = Playing then cancelClick s
      else case startRun (s\<lparr>ttsLog := ttsLog s @ [RestartClick]\<rparr>) contextText selection of
             None \<Rightarrow> s
           | Some (s2, chunks) \<Rightarrow> s2)"

definition sentenceClick :: "tts_state \<Rightarrow> nat \<Rightarrow> tts_state" where
  "sentenceClick s i =
     (if ttsStatus s \<noteq> Idle then cancelClick s
      else s\<lparr>activeSentenceIndex := (if activeSentenceIndex s = Some i then None else Some i)\<rparr>)"

definition ttsSourceEnded :: "tts_state \<Rightarrow> nat \<Rightarrow> tts_state" where
  "ttsSourceEnded s k =
     (let s1 = s\<lparr>ttsAudioSourcesRef :=
                   take k (ttsAudioSourcesRef s) @ drop (Suc k) (ttsAudioSourcesRef s)\<rparr>
      in if length (ttsAudioSourcesRef s1) = 0 \<and> \<not> isCancelledRef s1
         then s1\<lparr>ttsStatus := Idle, activeSentenceIndex := None\<rparr>
         else s1)"

fun pageStep :: "tts_state \<Rightarrow> PageEvent \<Rightarrow> tts_state" where
  "pageStep s (ReadAloudClick contextText selection) = readAloudClick s contextText selection"
| "pageStep s (SentenceClick i) = sentenceClick s i"
| "pageStep s NewContextClick = cancelClick s"
| "pageStep s (TtsSourceEnded k) = ttsSourceEnded s k"

definition pageSteps :: "tts_state \<Rightarrow> PageEvent list \<Rightarrow> tts_state" where
  "pageSteps s evs = foldl pageStep s evs"

text \<open>
  What one pass of the loop meets outside: the result of \<open>getTextToSpeech\<close> (a string or
  \<open>null\<close>; it catches its own errors and never throws), the events the page handles
  while that request is in flight, whether an \<open>AudioContext\<close> constructor exists, the
  clock and the decoding as for \<open>playAudio\<close>, and the events the page handles while
  \<open>queueAndPlayAudio\<close> awaits the decoding.
\<close>

record ChunkEnv =
  synthResult :: "jsstring option"
  duringFetch :: "PageEvent list"
  audioContextAvailable :: bool
  audio :: AudioEnv
  duringDecode :: "PageEvent list"

definition getTtsAudioContext :: "tts_state \<Rightarrow> bool \<Rightarrow> tts_state" where
  "getTtsAudioContext s available =
     (if ttsAudioContextRef s = None \<or> ttsAudioContextRef s = Some Closed
      then (if available then s\<lparr>ttsAudioContextRef := Some Running\<rparr> else s)
      else s)"

text \<open>
  \<open>queueAndPlayAudio\<close>. The page handles events while it awaits (the context's resume,
  the decoding), before the source is started and added.
\<close>

definition queueAndPlayAudio :: "tts_state \<Rightarrow> jsstring \<Rightarrow> ChunkEnv \<Rightarrow> tts_state outcome" where
  "queueAndPlayAudio s base64Audio env =
     (let s1 = getTtsAudioContext s (audioContextAvailable env)
      in case ttsAudioContextRef s1 of
           None \<Rightarrow> (s1, None)
         | Some ctx \<Rightarrow>
             let s2 = (if ctx = Suspended then s1\<lparr>ttsAudioContextRef := Some Running\<rparr> else s1);
                 s3 = pageSteps s2 (duringDecode env)
             in case decodeResult (audio env) of
                  None \<Rightarrow> (s3, Some DecodeError)
                | Some d \<Rightarrow>
                    let scheduledTime = max (nextTtsStartTimeRef s3) (currentTime (audio env))
                    in (s3\<lparr>ttsLog := ttsLog s3 @ [TtsSourceStart scheduledTime d],
                           nextTtsStartTimeRef := scheduledTime + d,
                           ttsAudioSourcesRef := ttsAudioSourcesRef s3 @
                             [\<lparr>duration = d, startedAt = Some scheduledTime\<rparr>]\<rparr>, None))"

text \<open>A run of \<open>queueAndPlayAudio\<close> calls, one after the other.\<close>

fun queueSeq :: "tts_state \<Rightarrow> (jsstring \<times> ChunkEnv) list \<Rightarrow> tts_state" where
  "queueSeq s [] = s"
| "queueSeq s ((base64Audio, env) # rest) = queueSeq (fst (queueAndPlayAudio s base64Audio env)) rest"



subsection \<open>Predicates and examples for the properties\<close>

text \<open>The ended state of the session: not connected, the four handles null, nothing
  playing, the loudness 0.\<close>

definition isEnded :: "live_state \<Rightarrow> bool" where
  "isEnded s =
     (\<not> isConnected s \<and> \<not> isConnecting s \<and> sessionPromiseRef s = None \<and>
      mediaStreamRef s = None \<and> scriptProcessorRef s = None \<and> sourceNodeRef s = None \<and>
      audioSourcesRef s = [] \<and> nextStartTimeRef s = 0 \<and> audioLevelRef s = 0)"

text \<open>Every source of the set has had \<open>start\<close> called.\<close>

definition allStarted :: "live_state \<Rightarrow> bool" where
  "allStarted s = list_all (\<lambda>source. startedAt source \<noteq> None) (audioSourcesRef s)"

text \<open>From \<open>s\<close> to \<open>s'\<close> the history has only grown, by entries whose ids are the
  counter values in between, in order.\<close>

definition appendsFresh :: "live_state \<Rightarrow> live_state \<Rightarrow> bool" where
  "appendsFresh s s' =
     (\<exists>new. transcriptHistory s' = transcriptHistory s @ new \<and>
            transcriptIdCounter s' = transcriptIdCounter s + length new \<and>
            map t_id new =
              map transcriptId [Suc (transcriptIdCounter s) ..< Suc (transcriptIdCounter s')])"

text \<open>The release calls \<open>stopSession\<close> makes before it stops the playback.\<close>

definition releases :: "live_state \<Rightarrow> Release list" where
  "releases s =
     (case sessionPromiseRef s of Some (Resolves _) \<Rightarrow> [SessionClose] | _ \<Rightarrow> []) @
     (if mediaStreamRef s \<noteq> None then [TracksStop] else []) @
     (if scriptProcessorRef s \<noteq> None then [ProcessorDisconnect] else []) @
     (if sourceNodeRef s \<noteq> None then [SourceNodeDisconnect] else []) @
     (case inputAudioContextRef s of None \<Rightarrow> [] | Some c \<Rightarrow> if c \<noteq> Closed then [InputContextClose] else [])"

text \<open>The fields no playback or tool-call step touches.\<close>

definition transcriptPart :: "live_state \<Rightarrow> Transcript list \<times> nat \<times> jsstring \<times> jsstring" where
  "transcriptPart s =
     (transcriptHistory s, transcriptIdCounter s, userUtteranceRef s, modelUtteranceRef s)"

text \<open>A state nothing is left to tear down in.\<close>

definition quiescent :: "live_state \<Rightarrow> bool" where
  "quiescent s =
     (isEnded s \<and> userUtteranceRef s = [] \<and> modelUtteranceRef s = [] \<and>
      currentUserUtterance s = [] \<and> currentModelUtterance s = [] \<and>
      inputAudioContextRef s \<noteq> Some Running \<and> inputAudioContextRef s \<noteq> Some Suspended \<and>
      outputAudioContextRef s \<noteq> Some Running \<and> outputAudioContextRef s \<noteq> Some Suspended)"

text \<open>Example inputs: a granted start, a clock and a decoded buffer, messages, and the
  sessions they lead to.\<close>

definition demoStart :: StartEnv where
  "demoStart = \<lparr>userMediaGranted = True, connectResult = Resolves True, failureMessage = []\<rparr>"

definition demoEnv :: AudioEnv where
  "demoEnv = \<lparr>currentTime = 1, decodeResult = Some 2\<rparr>"

definition demoMessage :: LiveServerMessage where
  "demoMessage =
     \<lparr>toolCall = None, inputTranscription = Some (Some (js ''What is the total? '')),
      outputTranscription = Some (Some (js ''It is 42.'')), turnComplete = True,
      inlineData = Some (js ''AAAA''), interrupted = False\<rparr>"

definition spaceMessage :: LiveServerMessage where
  "spaceMessage =
     \<lparr>toolCall = None, inputTranscription = Some (Some (js '' '')),
      outputTranscription = None, turnComplete = False,
      inlineData = None, interrupted = False\<rparr>"

definition demoSession :: live_state where
  "demoSession = liveRun initialState [Start demoStart, Open, Message demoMessage demoEnv]"














subsection \<open>Schedules, logs and examples for the properties of playback and read aloud\<close>

text \<open>The buffers scheduled, as (start time, duration), in the order of the
  \<open>source.start\<close> calls.\<close>

fun scheduled :: "AudioEvent list \<Rightarrow> (real \<times> real) list" where
  "scheduled [] = []"
| "scheduled (SourceStart t d # es) = (t, d) # scheduled es"
| "scheduled (SourceStop # es) = scheduled es"

fun ttsScheduled :: "TtsEvent list \<Rightarrow> (real \<times> real) list" where
  "ttsScheduled [] = []"
| "ttsScheduled (TtsSourceStart t d # es) = (t, d) # ttsScheduled es"
| "ttsScheduled (_ # es) = ttsScheduled es"

text \<open>No buffer starts before the one scheduled before it ends.\<close>

fun noOverlap :: "(real \<times> real) list \<Rightarrow> bool" where
  "noOverlap [] = True"
| "noOverlap [e] = True"
| "noOverlap (e1 # e2 # es) = (fst e1 + snd e1 \<le> fst e2 \<and> noOverlap (e2 # es))"

text \<open>The schedule so far has no overlap and ends by the next start time.\<close>

definition gapless :: "(real \<times> real) list \<Rightarrow> real \<Rightarrow> bool" where
  "gapless es next = (noOverlap es \<and> (es \<noteq> [] \<longrightarrow> fst (last es) + snd (last es) \<le> next))"

definition initialTts :: tts_state where
  "initialTts =
     \<lparr>ttsStatus = Idle, activeSentenceIndex = None, ttsAudioContextRef = None,
      ttsAudioSourcesRef = [], nextTtsStartTimeRef = 0, isCancelledRef = False, ttsLog = []\<rparr>"

definition buffersToPlay :: "(jsstring \<times> AudioEnv) list" where
  "buffersToPlay =
     [(js ''AAAA'', \<lparr>currentTime = 1, decodeResult = Some 2\<rparr>),
      (js ''BBBB'', \<lparr>currentTime = 3 / 2, decodeResult = Some 1\<rparr>),
      (js ''CCCC'', \<lparr>currentTime = 5, decodeResult = Some 1\<rparr>)]"

definition chunkEnvOf :: "AudioEnv \<Rightarrow> ChunkEnv" where
  "chunkEnvOf a =
     \<lparr>synthResult = Some (js ''AAAA''), duringFetch = [],
      audioContextAvailable = True, audio = a, duringDecode = []\<rparr>"

definition buffersToQueue :: "(jsstring \<times> ChunkEnv) list" where
  "buffersToQueue = map (\<lambda>(b, a). (b, chunkEnvOf a)) buffersToPlay"




text \<open>An event that is no click.\<close>

fun noClick :: "PageEvent \<Rightarrow> bool" where
  "noClick (TtsSourceEnded _) = True"
| "noClick _ = False"







section \<open>Properties of the sentence pattern and of chunkText\<close>

lemma isPunct_not_lt: "isPunct c \<Longrightarrow> \<not> isLineTerminator c"
  by (auto simp: isPunct_def isLineTerminator_def)

lemma alt1_split: "alt1 s = Some (m, r) \<Longrightarrow> m @ r = s \<and> m \<noteq> []"
  by (auto simp: alt1_def Let_def split: if_splits)

lemma alt2_split: "alt2 s = Some (m, r) \<Longrightarrow> m @ r = s \<and> m \<noteq> []"
  by (auto simp: alt2_def Let_def split: if_splits)

lemma execAt_split: "execAt s = Some (m, r) \<Longrightarrow> m @ r = s \<and> m \<noteq> []"
  by (auto simp: execAt_def split: option.splits dest: alt1_split alt2_split)

lemma execAt_total: "s \<noteq> [] \<Longrightarrow> execAt s \<noteq> None"
proof (cases s)
  case Nil
  assume "s \<noteq> []" with Nil show ?thesis by simp
next
  case (Cons c cs)
  show ?thesis
  proof (cases "isPunct c")
    case True
    then have "alt2 s \<noteq> None"
      using Cons isPunct_not_lt by (simp add: alt2_def Let_def)
    then show ?thesis by (auto simp: execAt_def split: option.splits)
  next
    case False
    then have "alt1 s \<noteq> None"
      using Cons by (simp add: alt1_def Let_def)
    then show ?thesis by (auto simp: execAt_def split: option.splits)
  qed
qed

lemma matchAll_concat: "concat (matchAll s) = s"
proof (induction s rule: matchAll.induct)
  case (1 s)
  show ?case
  proof (cases "s = []")
    case True
    then show ?thesis by (simp add: matchAll.simps)
  next
    case False
    then obtain m r where e: "execAt s = Some (m, r)"
      using execAt_total by fastforce
    have "concat (matchAll r) = r" by (rule 1(2) [OF False e refl])
    moreover have "matchAll s = m # matchAll r"
      using False e by (subst matchAll.simps) simp
    ultimately show ?thesis using execAt_split [OF e] by simp
  qed
qed

lemma matchAll_nonempty: "m \<in> set (matchAll s) \<Longrightarrow> m \<noteq> []"
proof (induction s arbitrary: m rule: matchAll.induct)
  case (1 s)
  show ?case
  proof (cases "s = []")
    case True
    with 1(3) show ?thesis by (simp add: matchAll.simps)
  next
    case False
    then obtain m' r where e: "execAt s = Some (m', r)"
      using execAt_total by fastforce
    have eq: "matchAll s = m' # matchAll r"
      using False e by (subst matchAll.simps) simp
    from 1(3) eq have "m = m' \<or> m \<in> set (matchAll r)" by simp
    then show ?thesis
    proof
      assume "m = m'" then show ?thesis using execAt_split [OF e] by simp
    next
      assume "m \<in> set (matchAll r)"
      then show ?thesis by (rule 1(2) [OF False e refl])
    qed
  qed
qed

lemma substring_take:
  "i < length s \<Longrightarrow> substring s i (i + m) = take m (drop i s)"
  by (simp add: substring_def Let_def min_def max_def)

lemma hardSplit_pieces:
  assumes m: "0 < m"
  shows "\<exists>ps. hardSplit s m i acc = Some (acc @ ps) \<and> concat ps = drop i s \<and>
           (\<forall>p\<in>set ps. p \<noteq> [] \<and> length p \<le> m) \<and> (\<forall>p\<in>set (butlast ps). length p = m)"
proof (induction "length s - i" arbitrary: i acc rule: less_induct)
  case less
  show ?case
  proof (cases "i < length s")
    case False
    then have "hardSplit s m i acc = Some (acc @ [])"
      by (subst hardSplit.simps) simp
    moreover from False have "concat [] = drop i s" by simp
    ultimately show ?thesis by (intro exI [of _ "[]"]) simp
  next
    case True
    let ?p = "take m (drop i s)"
    from True m have "length s - (i + m) < length s - i" by simp
    from less [OF this, of "acc @ [?p]"]
    obtain ps where h: "hardSplit s m (i + m) (acc @ [?p]) = Some ((acc @ [?p]) @ ps)"
      and c: "concat ps = drop (i + m) s"
      and b: "\<forall>p\<in>set ps. p \<noteq> [] \<and> length p \<le> m"
      and e: "\<forall>p\<in>set (butlast ps). length p = m"
      by blast
    have 1: "hardSplit s m i acc = Some (acc @ (?p # ps))"
      using True h by (subst hardSplit.simps) (simp add: substring_take)
    have "?p @ drop (i + m) s = drop i s"
      by (metis append_take_drop_id drop_drop add.commute)
    then have 2: "concat (?p # ps) = drop i s" using c by simp
    have pne: "?p \<noteq> []" using True m by simp
    have 3: "\<forall>p\<in>set (?p # ps). p \<noteq> [] \<and> length p \<le> m" using b pne by simp
    have 4: "\<forall>p\<in>set (butlast (?p # ps)). length p = m"
    proof (cases "ps = []")
      case True
      then show ?thesis by simp
    next
      case False
      then obtain q qs where "ps = q # qs" by (cases ps) auto
      with b c have "drop (i + m) s \<noteq> []" by (metis concat.simps(2) list.set_intros(1) append_is_Nil_conv)
      then have "i + m < length s" by simp
      then have "length ?p = m" by simp
      with e False show ?thesis by simp
    qed
    from 1 2 3 4 show ?thesis by blast
  qed
qed

lemma chunkLoop_inv:
  assumes m: "0 < m"
  shows "length cur \<le> m \<Longrightarrow>
    \<exists>new cur'. chunkLoop m ss (chunks, cur) = Some (chunks @ new, cur') \<and>
      concat new @ cur' = cur @ concat ss \<and> length cur' \<le> m \<and>
      (\<forall>c\<in>set new. c \<noteq> [] \<and> length c \<le> m)"
proof (induction ss arbitrary: chunks cur)
  case Nil
  then show ?case by (intro exI [of _ "[]"] exI [of _ cur]) simp
next
  case (Cons s ss)
  have push: "\<And>cs. \<exists>f. pushIfNonEmpty cs cur = cs @ f \<and> concat f = cur \<and>
      (\<forall>c\<in>set f. c \<noteq> [] \<and> length c \<le> m)"
    using Cons.prems by (auto simp: pushIfNonEmpty_def)
  then obtain f where f: "pushIfNonEmpty chunks cur = chunks @ f" "concat f = cur"
      "\<forall>c\<in>set f. c \<noteq> [] \<and> length c \<le> m" by blast
  consider (long) "length s > m" | (flush) "\<not> length s > m" "length (cur @ s) > m"
    | (add) "\<not> length s > m" "\<not> length (cur @ s) > m" by blast
  then show ?case
  proof cases
    case long
    from hardSplit_pieces [OF m, of s 0 "chunks @ f"]
    obtain ps where h: "hardSplit s m 0 (chunks @ f) = Some ((chunks @ f) @ ps)"
      and c: "concat ps = s" and b: "\<forall>p\<in>set ps. p \<noteq> [] \<and> length p \<le> m"
      by auto
    from Cons.IH [of "[]" "(chunks @ f) @ ps"]
    obtain new cur' where r: "chunkLoop m ss ((chunks @ f) @ ps, []) = Some (((chunks @ f) @ ps) @ new, cur')"
      and rc: "concat new @ cur' = [] @ concat ss" and rl: "length cur' \<le> m"
      and rb: "\<forall>c\<in>set new. c \<noteq> [] \<and> length c \<le> m" by auto
    have "chunkLoop m (s # ss) (chunks, cur) = Some (chunks @ (f @ ps @ new), cur')"
      using long h r f(1) by simp
    moreover have "concat (f @ ps @ new) @ cur' = cur @ concat (s # ss)"
      using f(2) c rc by simp
    moreover have "\<forall>c\<in>set (f @ ps @ new). c \<noteq> [] \<and> length c \<le> m"
      using f(3) b rb by auto
    ultimately show ?thesis using rl by blast
  next
    case flush
    from flush(1) have "length s \<le> m" by simp
    from Cons.IH [OF this, of "chunks @ f"]
    obtain new cur' where r: "chunkLoop m ss (chunks @ f, s) = Some ((chunks @ f) @ new, cur')"
      and rc: "concat new @ cur' = s @ concat ss" and rl: "length cur' \<le> m"
      and rb: "\<forall>c\<in>set new. c \<noteq> [] \<and> length c \<le> m" by auto
    have "chunkLoop m (s # ss) (chunks, cur) = Some (chunks @ (f @ new), cur')"
      using flush r f(1) by simp
    moreover have "concat (f @ new) @ cur' = cur @ concat (s # ss)"
      using f(2) rc by simp
    moreover have "\<forall>c\<in>set (f @ new). c \<noteq> [] \<and> length c \<le> m"
      using f(3) rb by auto
    ultimately show ?thesis using rl by blast
  next
    case add
    from add(2) have "length (cur @ s) \<le> m" by simp
    from Cons.IH [OF this, of chunks]
    obtain new cur' where r: "chunkLoop m ss (chunks, cur @ s) = Some (chunks @ new, cur')"
      and rc: "concat new @ cur' = (cur @ s) @ concat ss" and rl: "length cur' \<le> m"
      and rb: "\<forall>c\<in>set new. c \<noteq> [] \<and> length c \<le> m" by auto
    have "chunkLoop m (s # ss) (chunks, cur) = Some (chunks @ new, cur')"
      using add r by simp
    moreover have "concat new @ cur' = cur @ concat (s # ss)"
      using rc by simp
    ultimately show ?thesis using rl rb by blast
  qed
qed

text \<open>The chunks before the final filter.\<close>

lemma chunkText_raw:
  assumes m: "0 < m"
  shows "\<exists>raw. chunkText text m = Some (filter (\<lambda>c. length (trim c) > 0) raw) \<and>
           concat raw = text \<and> (\<forall>c\<in>set raw. c \<noteq> [] \<and> length c \<le> m)"
proof -
  from chunkLoop_inv [OF m, of "[]" "matchAll text" "[]"]
  obtain new cur' where r: "chunkLoop m (matchAll text) ([], []) = Some (new, cur')"
    and rc: "concat new @ cur' = concat (matchAll text)" and rl: "length cur' \<le> m"
    and rb: "\<forall>c\<in>set new. c \<noteq> [] \<and> length c \<le> m" by auto
  let ?raw = "pushIfNonEmpty new cur'"
  have "chunkText text m = Some (filter (\<lambda>c. length (trim c) > 0) ?raw)"
    using r by (simp add: chunkText_def)
  moreover have "concat ?raw = text"
    using rc by (auto simp: pushIfNonEmpty_def matchAll_concat)
  moreover have "\<forall>c\<in>set ?raw. c \<noteq> [] \<and> length c \<le> m"
    using rb rl by (simp add: pushIfNonEmpty_def)
  ultimately show ?thesis by blast
qed

lemma trim_empty_iff: "trim s = [] \<longleftrightarrow> (\<forall>c\<in>set s. isSpace c)"
proof
  assume t: "trim s = []"
  have "dropWhile isSpace s = []"
  proof (rule ccontr)
    assume ne: "dropWhile isSpace s \<noteq> []"
    then have "\<not> isSpace (hd (dropWhile isSpace s))" by (rule hd_dropWhile)
    moreover from t have "\<forall>x\<in>set (dropWhile isSpace s). isSpace x"
      by (simp add: trim_def dropWhile_eq_Nil_conv)
    ultimately show False using ne by (meson hd_in_set)
  qed
  then show "\<forall>c\<in>set s. isSpace c" by (simp add: dropWhile_eq_Nil_conv)
next
  assume "\<forall>c\<in>set s. isSpace c"
  then have d: "dropWhile isSpace s = []" by (simp add: dropWhile_eq_Nil_conv)
  show "trim s = []" unfolding trim_def d by simp
qed

lemma filter_concat_nonblank:
  "filter P (concat (filter (\<lambda>p. \<not> (\<forall>c\<in>set p. \<not> P c)) ps)) = filter P (concat ps)"
  by (induction ps) (auto simp: filter_empty_conv)

text \<open>
  Claim C10. For every text and every \<open>maxLength \<ge> 1\<close>, \<open>chunkText\<close> returns, and
  the chunks are what is left of a division of the text into consecutive non-empty
  pieces (in text order, so pairwise non-overlapping) once the pieces made of white space
  only are deleted. No character that is not white space is lost, duplicated or
  reordered: the characters of the chunks that are not white space are those of the
  text, in the same order.
\<close>

theorem chunkText_partition:
  "1 \<le> maxLength \<Longrightarrow>
     \<exists>pieces chunks.
       concat pieces = text \<and> (\<forall>p\<in>set pieces. p \<noteq> []) \<and>
       chunks = filter (\<lambda>p. \<not> (\<forall>c\<in>set p. isSpace c)) pieces \<and>
       chunkText text maxLength = Some chunks \<and>
       filter (\<lambda>c. \<not> isSpace c) (concat chunks) = filter (\<lambda>c. \<not> isSpace c) text"
proof -
  assume "1 \<le> maxLength"
  then have m: "0 < maxLength" by simp
  from chunkText_raw [OF m, of "text"]
  obtain raw where r: "chunkText text maxLength = Some (filter (\<lambda>c. length (trim c) > 0) raw)"
    and c: "concat raw = text" and b: "\<forall>c\<in>set raw. c \<noteq> [] \<and> length c \<le> maxLength"
    by blast
  let ?chunks = "filter (\<lambda>p. \<not> (\<forall>c\<in>set p. isSpace c)) raw"
  have 1: "chunkText text maxLength = Some ?chunks"
    using r by (simp add: trim_empty_iff)
  have 2: "filter (\<lambda>c. \<not> isSpace c) (concat ?chunks) = filter (\<lambda>c. \<not> isSpace c) text"
    using filter_concat_nonblank [of "\<lambda>c. \<not> isSpace c" raw] c by simp
  from b have 3: "\<forall>p\<in>set raw. p \<noteq> []" by simp
  from c 1 2 3 show ?thesis by blast
qed

theorem chunkText_partition_witness:
  "(1::nat) \<le> 2 \<and> chunkText (js ''ab   c'') 2 = Some [js ''ab'', js '' c''] \<and>
   filter (\<lambda>c. \<not> isSpace c) (concat [js ''ab'', js '' c'']) = filter (\<lambda>c. \<not> isSpace c) (js ''ab   c'')"
proof -
  have h: "(1::nat) \<le> 2" by simp
  have e: "chunkText (js ''ab   c'') 2 = Some [js ''ab'', js '' c'']" by code_simp
  from chunkText_partition [OF h, of "js ''ab   c''"]
  obtain chunks where c: "chunkText (js ''ab   c'') 2 = Some chunks"
    and f: "filter (\<lambda>c. \<not> isSpace c) (concat chunks) = filter (\<lambda>c. \<not> isSpace c) (js ''ab   c'')"
    by blast
  from c e have "chunks = [js ''ab'', js '' c'']" by simp
  with f h e show ?thesis by simp
qed

text \<open>
  Claim C4. For every text and every \<open>maxLength \<ge> 1\<close>, \<open>chunkText\<close> returns and
  every chunk has at most \<open>maxLength\<close> characters. A sentence longer than
  \<open>maxLength\<close> is, after the pending chunk is flushed, cut into consecutive pieces that
  make up the sentence: all but the last have exactly \<open>maxLength\<close> characters, and
  the last has between 1 and \<open>maxLength\<close>.
\<close>

theorem chunkText_bound:
  "1 \<le> maxLength \<Longrightarrow>
     (\<exists>chunks. chunkText text maxLength = Some chunks \<and> (\<forall>c\<in>set chunks. length c \<le> maxLength)) \<and>
     (length sentence > maxLength \<longrightarrow>
        (\<exists>ps. chunkLoop maxLength (sentence # rest) (chunks0, cur) =
                 chunkLoop maxLength rest (pushIfNonEmpty chunks0 cur @ ps, []) \<and>
              concat ps = sentence \<and> ps \<noteq> [] \<and>
              (\<forall>p\<in>set (butlast ps). length p = maxLength) \<and>
              0 < length (last ps) \<and> length (last ps) \<le> maxLength))"
proof -
  assume "1 \<le> maxLength"
  then have m: "0 < maxLength" by simp
  from chunkText_raw [OF m, of "text"]
  obtain raw where r: "chunkText text maxLength = Some (filter (\<lambda>c. length (trim c) > 0) raw)"
    and b: "\<forall>c\<in>set raw. c \<noteq> [] \<and> length c \<le> maxLength"
    by blast
  from b have "\<forall>c\<in>set (filter (\<lambda>c. length (trim c) > 0) raw). length c \<le> maxLength" by simp
  with r have A: "\<exists>chunks. chunkText text maxLength = Some chunks \<and> (\<forall>c\<in>set chunks. length c \<le> maxLength)"
    by blast
  have B: "length sentence > maxLength \<longrightarrow>
        (\<exists>ps. chunkLoop maxLength (sentence # rest) (chunks0, cur) =
                 chunkLoop maxLength rest (pushIfNonEmpty chunks0 cur @ ps, []) \<and>
              concat ps = sentence \<and> ps \<noteq> [] \<and>
              (\<forall>p\<in>set (butlast ps). length p = maxLength) \<and>
              0 < length (last ps) \<and> length (last ps) \<le> maxLength)"
  proof
    assume long: "length sentence > maxLength"
    from hardSplit_pieces [OF m, of sentence 0 "pushIfNonEmpty chunks0 cur"]
    obtain ps where h: "hardSplit sentence maxLength 0 (pushIfNonEmpty chunks0 cur) =
          Some (pushIfNonEmpty chunks0 cur @ ps)"
      and c: "concat ps = sentence"
      and pb: "\<forall>p\<in>set ps. p \<noteq> [] \<and> length p \<le> maxLength"
      and pe: "\<forall>p\<in>set (butlast ps). length p = maxLength"
      by auto
    from long c have ne: "ps \<noteq> []" by auto
    then have "last ps \<in> set ps" by simp
    with pb have l: "0 < length (last ps) \<and> length (last ps) \<le> maxLength" by auto
    have "chunkLoop maxLength (sentence # rest) (chunks0, cur) =
                 chunkLoop maxLength rest (pushIfNonEmpty chunks0 cur @ ps, [])"
      using long h by simp
    with c ne pe l show "\<exists>ps. chunkLoop maxLength (sentence # rest) (chunks0, cur) =
                 chunkLoop maxLength rest (pushIfNonEmpty chunks0 cur @ ps, []) \<and>
              concat ps = sentence \<and> ps \<noteq> [] \<and>
              (\<forall>p\<in>set (butlast ps). length p = maxLength) \<and>
              0 < length (last ps) \<and> length (last ps) \<le> maxLength" by blast
  qed
  from A B show ?thesis by blast
qed

theorem chunkText_bound_witness:
  "(1::nat) \<le> 13 \<and> length (js ''How are you?  '') > 13 \<and>
   chunkText (js ''Hello world. How are you?  Fine!'') 13 =
     Some [js ''Hello world. '', js ''How are you? '', js ''Fine!''] \<and>
   chunkLoop 13 [js ''How are you?  ''] ([], js ''Hello world. '') =
     Some ([js ''Hello world. '', js ''How are you? '', js '' ''], [])"
proof -
  have h: "(1::nat) \<le> 13" by simp
  have l: "length (js ''How are you?  '') > 13" by (simp add: js_def)
  have e: "chunkText (js ''Hello world. How are you?  Fine!'') 13 =
     Some [js ''Hello world. '', js ''How are you? '', js ''Fine!'']" by code_simp
  have f: "chunkLoop 13 [js ''How are you?  ''] ([], js ''Hello world. '') =
     Some ([js ''Hello world. '', js ''How are you? '', js '' ''], [])" by code_simp
  from chunkText_bound [OF h, of "js ''Hello world. How are you?  Fine!''" "js ''How are you?  ''"]
    h l e f show ?thesis by blast
qed

lemma chunkLoop_fits:
  "length (cur @ concat ss) \<le> m \<Longrightarrow> chunkLoop m ss (chunks, cur) = Some (chunks, cur @ concat ss)"
  by (induction ss arbitrary: cur) auto

text \<open>
  Claim C7, amended. A text that is not white space only and has at most \<open>maxLength\<close>
  characters comes back as exactly one chunk, and that chunk is the text itself, white
  space at its ends included: \<open>chunkText\<close> filters chunks by their trimmed length and
  never trims them.
\<close>

theorem chunkText_short:
  "trim text \<noteq> [] \<Longrightarrow> length text \<le> maxLength \<Longrightarrow> chunkText text maxLength = Some [text]"
proof -
  assume t: "trim text \<noteq> []" and l: "length text \<le> maxLength"
  from t have ne: "text \<noteq> []" by (auto simp: trim_def)
  from l have "length ([] @ concat (matchAll text)) \<le> maxLength" by (simp add: matchAll_concat)
  from chunkLoop_fits [OF this, of "[]"]
  have "chunkLoop maxLength (matchAll text) ([], []) = Some ([], text)"
    by (simp add: matchAll_concat)
  then show ?thesis using t ne by (simp add: chunkText_def pushIfNonEmpty_def)
qed

theorem chunkText_short_witness:
  "trim (js '' a'') \<noteq> [] \<and> length (js '' a'') \<le> 5 \<and> chunkText (js '' a'') 5 = Some [js '' a'']"
proof -
  have t: "trim (js '' a'') \<noteq> []" by code_simp
  have l: "length (js '' a'') \<le> 5" by (simp add: js_def)
  from chunkText_short [OF t l] t l show ?thesis by simp
qed

text \<open>
  Claim C7 as stated fails: the text \<open>" a"\<close> with \<open>maxLength = 5\<close> is not white
  space only and is short enough, and its one chunk is \<open>" a"\<close>, not the trimmed
  \<open>"a"\<close>.
\<close>

theorem chunkText_short_not_trimmed:
  "trim (js '' a'') \<noteq> [] \<and> length (js '' a'') \<le> 5 \<and>
   chunkText (js '' a'') 5 = Some [js '' a''] \<and> trim (js '' a'') = js ''a'' \<and>
   chunkText (js '' a'') 5 \<noteq> Some [trim (js '' a'')]"
  by code_simp

section \<open>Properties of the realtime session\<close>


lemma turnCompleteHandler_eq:
  "turnCompleteHandler s =
     s\<lparr>transcriptIdCounter :=
           transcriptIdCounter s + (if trim (userUtteranceRef s) \<noteq> [] then 1 else 0)
             + (if trim (modelUtteranceRef s) \<noteq> [] then 1 else 0),
        transcriptHistory := transcriptHistory s @
          (if trim (userUtteranceRef s) \<noteq> []
           then [\<lparr>t_id = transcriptId (transcriptIdCounter s + 1),
                  t_text = trim (userUtteranceRef s), t_source = User\<rparr>] else []) @
          (if trim (modelUtteranceRef s) \<noteq> []
           then [\<lparr>t_id = transcriptId (transcriptIdCounter s
                           + (if trim (userUtteranceRef s) \<noteq> [] then 1 else 0) + 1),
                  t_text = trim (modelUtteranceRef s), t_source = Model\<rparr>] else []),
        userUtteranceRef := [], modelUtteranceRef := []\<rparr>"
  by (simp add: turnCompleteHandler_def Let_def)

lemma commitFinalUtterances_eq:
  "commitFinalUtterances s =
     s\<lparr>transcriptIdCounter :=
           transcriptIdCounter s + (if userUtteranceRef s \<noteq> [] then 1 else 0)
             + (if modelUtteranceRef s \<noteq> [] then 1 else 0),
        transcriptHistory := transcriptHistory s @
          (if userUtteranceRef s \<noteq> []
           then [\<lparr>t_id = transcriptId (transcriptIdCounter s + 1),
                  t_text = userUtteranceRef s, t_source = User\<rparr>] else []) @
          (if modelUtteranceRef s \<noteq> []
           then [\<lparr>t_id = transcriptId (transcriptIdCounter s
                           + (if userUtteranceRef s \<noteq> [] then 1 else 0) + 1),
                  t_text = modelUtteranceRef s, t_source = Model\<rparr>] else []),
        userUtteranceRef := [], modelUtteranceRef := [],
        currentUserUtterance := [], currentModelUtterance := []\<rparr>"
  by (simp add: commitFinalUtterances_def Let_def)

subsection \<open>ids\<close>

lemma digitsOf_nonempty: "digitsOf n \<noteq> []"
  by (subst digitsOf.simps) simp

lemma digit_inj:
  assumes "a < 10" "b < 10" "(of_nat (48 + a) :: jschar) = of_nat (48 + b)"
  shows "a = b"
proof -
  from assms(3) have "unat (of_nat (48 + a) :: jschar) = unat (of_nat (48 + b) :: jschar)"
    by (simp only:)
  then have "(48 + a) mod 2 ^ 16 = (48 + b) mod 2 ^ 16"
    by (simp only: unat_of_nat len_bit0 len_num1 mult_1_right mult_2 one_add_one numeral_Bit0 [symmetric]) 
  with assms(1,2) show ?thesis by simp
qed

lemma digitsOf_inj: "digitsOf n = digitsOf m \<Longrightarrow> n = m"
proof (induction n arbitrary: m rule: digitsOf.induct)
  case (1 n)
  show ?case
  proof (cases "n < 10")
    case True
    note n = True
    show ?thesis
    proof (cases "m < 10")
      case True
      with n 1(2) show ?thesis
        using digit_inj [of n m] by (simp add: digitsOf.simps [of n] digitsOf.simps [of m])
    next
      case False
      then have "length (digitsOf m) \<ge> 2"
        using digitsOf_nonempty [of "m div 10"]
        by (subst digitsOf.simps) (cases "digitsOf (m div 10)"; simp)
      moreover have "length (digitsOf n) = 1" using n by (subst digitsOf.simps) simp
      ultimately show ?thesis using 1(2) by simp
    qed
  next
    case False
    note n = False
    show ?thesis
    proof (cases "m < 10")
      case True
      have "length (digitsOf n) \<ge> 2"
        using digitsOf_nonempty [of "n div 10"] n
        by (subst digitsOf.simps) (cases "digitsOf (n div 10)"; simp)
      moreover have "length (digitsOf m) = 1" using True by (subst digitsOf.simps) simp
      ultimately show ?thesis using 1(2) by simp
    next
      case False
      from 1(2) n False
      have eq: "digitsOf (n div 10) @ [of_nat (48 + n mod 10)] =
                digitsOf (m div 10) @ [of_nat (48 + m mod 10)]"
        by (simp add: digitsOf.simps [of n] digitsOf.simps [of m])
      then have a: "digitsOf (n div 10) = digitsOf (m div 10)"
        and b: "(of_nat (48 + n mod 10) :: jschar) = of_nat (48 + m mod 10)" by simp_all
      from 1(1) [OF n a] have "n div 10 = m div 10" .
      moreover from b have "n mod 10 = m mod 10" by (intro digit_inj) simp_all
      ultimately show ?thesis by (metis div_mult_mod_eq)
    qed
  qed
qed

lemma transcriptId_inj: "transcriptId n = transcriptId m \<Longrightarrow> n = m"
  by (simp add: transcriptId_def digitsOf_inj)

subsection \<open>appendsFresh\<close>

lemma appendsFresh_refl: "appendsFresh s s"
  by (simp add: appendsFresh_def)

lemma upt_Suc_split: "a \<le> b \<Longrightarrow> b \<le> c \<Longrightarrow> [Suc a ..< Suc c] = [Suc a ..< Suc b] @ [Suc b ..< Suc c]"
  by (metis Suc_le_mono upt_add_eq_append le_Suc_ex)

lemma appendsFresh_trans:
  assumes "appendsFresh s t" "appendsFresh t u"
  shows "appendsFresh s u"
proof -
  from assms(1) obtain n1 where 1: "transcriptHistory t = transcriptHistory s @ n1"
    "transcriptIdCounter t = transcriptIdCounter s + length n1"
    "map t_id n1 = map transcriptId [Suc (transcriptIdCounter s) ..< Suc (transcriptIdCounter t)]"
    by (auto simp: appendsFresh_def)
  from assms(2) obtain n2 where 2: "transcriptHistory u = transcriptHistory t @ n2"
    "transcriptIdCounter u = transcriptIdCounter t + length n2"
    "map t_id n2 = map transcriptId [Suc (transcriptIdCounter t) ..< Suc (transcriptIdCounter u)]"
    by (auto simp: appendsFresh_def)
  have "[Suc (transcriptIdCounter s) ..< Suc (transcriptIdCounter u)] =
        [Suc (transcriptIdCounter s) ..< Suc (transcriptIdCounter t)] @
        [Suc (transcriptIdCounter t) ..< Suc (transcriptIdCounter u)]"
    using 1(2) 2(2) by (intro upt_Suc_split) simp_all
  then have "map t_id (n1 @ n2) =
      map transcriptId [Suc (transcriptIdCounter s) ..< Suc (transcriptIdCounter u)]"
    using 1(3) 2(3) by simp
  moreover have "transcriptHistory u = transcriptHistory s @ (n1 @ n2)" using 1(1) 2(1) by simp
  moreover have "transcriptIdCounter u = transcriptIdCounter s + length (n1 @ n2)"
    using 1(2) 2(2) by simp
  ultimately show ?thesis unfolding appendsFresh_def by blast
qed

lemma appendsFresh_turnComplete: "appendsFresh s (turnCompleteHandler s)"
  unfolding appendsFresh_def turnCompleteHandler_eq
  by (simp add: upt_rec)

lemma appendsFresh_commitFinal: "appendsFresh s (commitFinalUtterances s)"
  unfolding appendsFresh_def commitFinalUtterances_eq
  by (simp add: upt_rec)

lemma stopSession_shape:
  "stopSession s =
     andThen (stopAllPlayback
        (s\<lparr>releaseLog := releaseLog s @ releases s,
           sessionPromiseRef := None, mediaStreamRef := None, scriptProcessorRef := None,
           sourceNodeRef := None,
           inputAudioContextRef := map_option (\<lambda>_. Closed) (inputAudioContextRef s)\<rparr>))
       (\<lambda>s8. (commitFinalUtterances
          (s8\<lparr>outputAudioContextRef := map_option (\<lambda>_. Closed) (outputAudioContextRef s8),
              releaseLog := releaseLog s8 @
                (case outputAudioContextRef s8 of None \<Rightarrow> []
                 | Some c \<Rightarrow> if c \<noteq> Closed then [OutputContextClose] else []),
              audioLevelRef := 0, isConnected := False, isConnecting := False\<rparr>), None))"
  unfolding stopSession_def releases_def closeContext_def Let_def
  by (auto split: option.splits SessionPromise.splits intro!: arg_cong2 [where f = andThen] arg_cong [where f = stopAllPlayback] ext)

lemma andThen_fst:
  "R (fst x) \<Longrightarrow> (\<And>t. R t \<Longrightarrow> R (fst (f t))) \<Longrightarrow> R (fst (andThen x f))"
  by (cases x; cases "snd x") auto

lemma stopEach_started:
  "list_all (\<lambda>source. startedAt source \<noteq> None) xs \<Longrightarrow>
   stopEach s xs = (s\<lparr>audioLog := audioLog s @ replicate (length xs) SourceStop\<rparr>, None)"
  by (induction xs arbitrary: s) (auto simp: replicate_app_Cons_same)

lemma stopEach_frame:
  "\<exists>l. fst (stopEach s xs) = s\<lparr>audioLog := l\<rparr>"
proof (induction xs arbitrary: s)
  case Nil
  show ?case by (rule exI [of _ "audioLog s"]) simp
next
  case (Cons x xs)
  show ?case
  proof (cases "startedAt x = None")
    case True
    then show ?thesis by (intro exI [of _ "audioLog s"]) simp
  next
    case False
    from Cons [of "s\<lparr>audioLog := audioLog s @ [SourceStop]\<rparr>"]
    obtain l where "fst (stopEach (s\<lparr>audioLog := audioLog s @ [SourceStop]\<rparr>) xs) =
        s\<lparr>audioLog := audioLog s @ [SourceStop]\<rparr>\<lparr>audioLog := l\<rparr>" by blast
    with False show ?thesis by (intro exI [of _ l]) auto
  qed
qed

lemma stopAllPlayback_started:
  "allStarted s \<Longrightarrow>
   stopAllPlayback s =
     (s\<lparr>audioLog := audioLog s @ replicate (length (audioSourcesRef s)) SourceStop,
        audioSourcesRef := [], nextStartTimeRef := 0\<rparr>, None)"
  by (simp add: stopAllPlayback_def allStarted_def stopEach_started)

text \<open>What \<open>stopAllPlayback\<close> can change.\<close>

lemma stopAllPlayback_frame:
  "\<exists>l xs t. fst (stopAllPlayback s) = s\<lparr>audioLog := l, audioSourcesRef := xs, nextStartTimeRef := t\<rparr> \<and>
     (xs = audioSourcesRef s \<or> xs = [])"
proof -
  obtain l where l: "fst (stopEach s (audioSourcesRef s)) = s\<lparr>audioLog := l\<rparr>"
    using stopEach_frame by blast
  show ?thesis
  proof (cases "snd (stopEach s (audioSourcesRef s))")
    case None
    with l have "stopEach s (audioSourcesRef s) = (s\<lparr>audioLog := l\<rparr>, None)"
      by (metis prod.collapse)
    then have "fst (stopAllPlayback s) = s\<lparr>audioLog := l, audioSourcesRef := [], nextStartTimeRef := 0\<rparr>"
      by (simp add: stopAllPlayback_def)
    then show ?thesis by blast
  next
    case (Some e)
    with l have "stopEach s (audioSourcesRef s) = (s\<lparr>audioLog := l\<rparr>, Some e)"
      by (metis prod.collapse)
    then have "fst (stopAllPlayback s) =
        s\<lparr>audioLog := l, audioSourcesRef := audioSourcesRef s, nextStartTimeRef := nextStartTimeRef s\<rparr>"
      by (simp add: stopAllPlayback_def)
    then show ?thesis by blast
  qed
qed

lemma playAudio_frame:
  "\<exists>c t l xs. fst (playAudio s b env) =
      s\<lparr>outputAudioContextRef := c, nextStartTimeRef := t, audioLog := l, audioSourcesRef := xs\<rparr> \<and>
      (list_all (\<lambda>source. startedAt source \<noteq> None) (audioSourcesRef s) \<longrightarrow>
       list_all (\<lambda>source. startedAt source \<noteq> None) xs)"
proof (cases "outputAudioContextRef s")
  case None
  then have "fst (playAudio s b env) = s\<lparr>outputAudioContextRef := outputAudioContextRef s,
     nextStartTimeRef := nextStartTimeRef s, audioLog := audioLog s, audioSourcesRef := audioSourcesRef s\<rparr>"
    by (simp add: playAudio_def)
  then show ?thesis by blast
next
  case (Some ctx)
  show ?thesis
  proof (cases "decodeResult env")
    case None
    with Some have "fst (playAudio s b env) =
       s\<lparr>outputAudioContextRef := (if ctx = Suspended then Some Running else Some ctx),
         nextStartTimeRef := max (nextStartTimeRef s) (currentTime env),
         audioLog := audioLog s, audioSourcesRef := audioSourcesRef s\<rparr>"
      by (simp add: playAudio_def Let_def)
    then show ?thesis by blast
  next
    case d: (Some d)
    with Some have "fst (playAudio s b env) =
       s\<lparr>outputAudioContextRef := (if ctx = Suspended then Some Running else Some ctx),
         nextStartTimeRef := max (nextStartTimeRef s) (currentTime env) + d,
         audioLog := audioLog s @ [SourceStart (max (nextStartTimeRef s) (currentTime env)) d],
         audioSourcesRef := audioSourcesRef s @
           [\<lparr>duration = d, startedAt = Some (max (nextStartTimeRef s) (currentTime env))\<rparr>]\<rparr>"
      by (simp add: playAudio_def Let_def)
    moreover have "list_all (\<lambda>source. startedAt source \<noteq> None) (audioSourcesRef s) \<longrightarrow>
       list_all (\<lambda>source. startedAt source \<noteq> None) (audioSourcesRef s @
           [\<lparr>duration = d, startedAt = Some (max (nextStartTimeRef s) (currentTime env))\<rparr>])"
      by simp
    ultimately show ?thesis by blast
  qed
qed

lemma handleToolCalls_frame:
  "\<exists>cs rs. fst (handleToolCalls s fcs) = s\<lparr>scratchpadCalls := cs, toolResponses := rs\<rparr>"
proof (induction fcs arbitrary: s)
  case Nil
  show ?case by (intro exI [of _ "scratchpadCalls s"] exI [of _ "toolResponses s"]) simp
next
  case (Cons fc fcs)
  have keep: "\<exists>cs rs. s = s\<lparr>scratchpadCalls := cs, toolResponses := rs\<rparr>"
    by (intro exI [of _ "scratchpadCalls s"] exI [of _ "toolResponses s"]) simp
  have step: "\<And>t. (\<exists>cs rs. t = s\<lparr>scratchpadCalls := cs, toolResponses := rs\<rparr>) \<Longrightarrow>
      \<exists>cs rs. fst (handleToolCalls t fcs) = s\<lparr>scratchpadCalls := cs, toolResponses := rs\<rparr>"
  proof -
    fix t assume "\<exists>cs rs. t = s\<lparr>scratchpadCalls := cs, toolResponses := rs\<rparr>"
    then obtain cs rs where t: "t = s\<lparr>scratchpadCalls := cs, toolResponses := rs\<rparr>" by blast
    from Cons [of t] obtain cs' rs' where
      "fst (handleToolCalls t fcs) = t\<lparr>scratchpadCalls := cs', toolResponses := rs'\<rparr>" by blast
    with t have "fst (handleToolCalls t fcs) = s\<lparr>scratchpadCalls := cs', toolResponses := rs'\<rparr>"
      by simp
    then show "\<exists>cs rs. fst (handleToolCalls t fcs) = s\<lparr>scratchpadCalls := cs, toolResponses := rs\<rparr>"
      by blast
  qed
  show ?case
  proof (cases "fc_name fc = Some (js ''addToScratchpad'')")
    case False
    then show ?thesis using step [OF keep] by simp
  next
    case True
    show ?thesis
    proof (cases "fc_args fc")
      case None
      with True show ?thesis using keep by simp
    next
      case (Some content)
      show ?thesis
      proof (cases "truthy content")
        case False
        with True Some show ?thesis using step [OF keep] by simp
      next
        case t: True
        let ?s1 = "s\<lparr>scratchpadCalls := scratchpadCalls s @ [textOf content]\<rparr>"
        let ?s2 = "(case sessionPromiseRef ?s1 of
                           Some (Resolves _) \<Rightarrow>
                             ?s1\<lparr>toolResponses := toolResponses ?s1 @
                                  [\<lparr>fr_id = fc_id fc, fr_name = fc_name fc,
                                    fr_result = js ''ok, content added.''\<rparr>]\<rparr>
                         | _ \<Rightarrow> ?s1)"
        have "\<exists>cs rs. ?s2 = s\<lparr>scratchpadCalls := cs, toolResponses := rs\<rparr>"
        proof (cases "sessionPromiseRef s")
          case None
          then have "?s2 = s\<lparr>scratchpadCalls := scratchpadCalls s @ [textOf content],
               toolResponses := toolResponses s\<rparr>" by simp
          then show ?thesis by blast
        next
          case (Some p)
          then show ?thesis
          proof (cases p)
            case (Resolves x)
            with Some have "?s2 = s\<lparr>scratchpadCalls := scratchpadCalls s @ [textOf content],
               toolResponses := toolResponses s @ [\<lparr>fr_id = fc_id fc, fr_name = fc_name fc,
                                    fr_result = js ''ok, content added.''\<rparr>]\<rparr>" by simp
            then show ?thesis by blast
          next
            case Rejects
            with Some have "?s2 = s\<lparr>scratchpadCalls := scratchpadCalls s @ [textOf content],
               toolResponses := toolResponses s\<rparr>" by simp
            then show ?thesis by blast
          qed
        qed
        from step [OF this] True Some t show ?thesis by (simp add: Let_def)
      qed
    qed
  qed
qed

lemma tp_playAudio: "transcriptPart (fst (playAudio t b env)) = transcriptPart t"
proof -
  obtain c n l xs where "fst (playAudio t b env) =
      t\<lparr>outputAudioContextRef := c, nextStartTimeRef := n, audioLog := l, audioSourcesRef := xs\<rparr>"
    using playAudio_frame by blast
  then show ?thesis by (simp add: transcriptPart_def)
qed

lemma tp_stopAllPlayback: "transcriptPart (fst (stopAllPlayback t)) = transcriptPart t"
proof -
  obtain l xs n where "fst (stopAllPlayback t) =
      t\<lparr>audioLog := l, audioSourcesRef := xs, nextStartTimeRef := n\<rparr>"
    using stopAllPlayback_frame by blast
  then show ?thesis by (simp add: transcriptPart_def)
qed

lemma tp_handleToolCalls: "transcriptPart (fst (handleToolCalls t fcs)) = transcriptPart t"
proof -
  obtain cs rs where "fst (handleToolCalls t fcs) = t\<lparr>scratchpadCalls := cs, toolResponses := rs\<rparr>"
    using handleToolCalls_frame by blast
  then show ?thesis by (simp add: transcriptPart_def)
qed

lemma appendsFresh_tp:
  "appendsFresh s t \<Longrightarrow> transcriptPart t' = transcriptPart t \<Longrightarrow> appendsFresh s t'"
  by (simp add: appendsFresh_def transcriptPart_def)

lemma tp_toolCallPart: "transcriptPart (fst (toolCallPart t m)) = transcriptPart t"
  by (cases "toolCall m") (simp_all add: toolCallPart_def tp_handleToolCalls)

lemma tp_playbackPart: "transcriptPart (fst (playbackPart t m env)) = transcriptPart t"
  unfolding playbackPart_def
  by (rule andThen_fst) (simp_all add: tp_playAudio tp_stopAllPlayback)

lemma transcriptionPart_eq:
  "transcriptionPart s m =
     s\<lparr>userUtteranceRef := userUtteranceRef s @
            (case inputTranscription m of None \<Rightarrow> [] | Some t \<Rightarrow> textOf t),
        modelUtteranceRef := modelUtteranceRef s @
            (case outputTranscription m of None \<Rightarrow> [] | Some t \<Rightarrow> textOf t)\<rparr>"
  by (simp add: transcriptionPart_def Let_def split: option.splits)

lemma appendsFresh_onmessage: "appendsFresh s (fst (onmessage s m env))"
  unfolding onmessage_def
proof (rule andThen_fst)
  show "appendsFresh s (fst (toolCallPart s m))"
    by (rule appendsFresh_tp [OF appendsFresh_refl tp_toolCallPart])
next
  fix t assume t: "appendsFresh s t"
  let ?s3 = "transcriptionPart t m"
  let ?s4 = "(if turnComplete m then turnCompleteHandler ?s3 else ?s3)"
  have "transcriptHistory ?s3 = transcriptHistory t \<and> transcriptIdCounter ?s3 = transcriptIdCounter t"
    by (simp add: transcriptionPart_eq)
  with t have 3: "appendsFresh s ?s3" by (simp add: appendsFresh_def)
  have 4: "appendsFresh s ?s4"
    using 3 appendsFresh_trans [OF 3 appendsFresh_turnComplete] by simp
  have "appendsFresh s (fst (playbackPart ?s4 m env))"
    by (rule appendsFresh_tp [OF 4 tp_playbackPart])
  then show "appendsFresh s (fst (let s3 = transcriptionPart t m;
                 s4 = (if turnComplete m then turnCompleteHandler s3 else s3)
             in playbackPart s4 m env))"
    by (simp add: Let_def)
qed

lemma appendsFresh_stopSession: "appendsFresh s (fst (stopSession s))"
  unfolding stopSession_shape
proof (rule andThen_fst)
  let ?pre = "s\<lparr>releaseLog := releaseLog s @ releases s,
           sessionPromiseRef := None, mediaStreamRef := None, scriptProcessorRef := None,
           sourceNodeRef := None,
           inputAudioContextRef := map_option (\<lambda>_. Closed) (inputAudioContextRef s)\<rparr>"
  have "transcriptPart ?pre = transcriptPart s" by (simp add: transcriptPart_def)
  then have "appendsFresh s ?pre" by (rule appendsFresh_tp [OF appendsFresh_refl])
  then show "appendsFresh s (fst (stopAllPlayback ?pre))"
    by (rule appendsFresh_tp) (rule tp_stopAllPlayback)
next
  fix t assume t: "appendsFresh s t"
  let ?t' = "t\<lparr>outputAudioContextRef := map_option (\<lambda>_. Closed) (outputAudioContextRef t),
              releaseLog := releaseLog t @
                (case outputAudioContextRef t of None \<Rightarrow> []
                 | Some c \<Rightarrow> if c \<noteq> Closed then [OutputContextClose] else []),
              audioLevelRef := 0, isConnected := False, isConnecting := False\<rparr>"
  have "transcriptPart ?t' = transcriptPart t" by (simp add: transcriptPart_def)
  with t have "appendsFresh s ?t'" by (rule appendsFresh_tp)
  then have "appendsFresh s (commitFinalUtterances ?t')"
    by (rule appendsFresh_trans) (rule appendsFresh_commitFinal)
  then show "appendsFresh s (fst (commitFinalUtterances ?t', None))" by simp
qed

lemma appendsFresh_step: "\<not> isStart ev \<Longrightarrow> appendsFresh s (liveStep s ev)"
proof (cases ev)
  case (Start x1)
  assume "\<not> isStart ev" with Start show ?thesis by simp
next
  case Open
  then show ?thesis by (simp add: onopen_def Let_def appendsFresh_def)
next
  case (Message m env)
  then show ?thesis by (simp add: appendsFresh_onmessage)
next
  case (ChannelError msg)
  have "appendsFresh s (s\<lparr>error := Some msg\<rparr>)" by (simp add: appendsFresh_def)
  from appendsFresh_trans [OF this appendsFresh_stopSession] ChannelError
  show ?thesis by (simp add: onerror_def)
next
  case ChannelClose
  then show ?thesis by (simp add: onclose_def appendsFresh_stopSession)
next
  case Stop
  then show ?thesis by (simp add: appendsFresh_stopSession)
next
  case (SourceEnded i)
  then show ?thesis by (simp add: sourceEnded_def appendsFresh_def)
next
  case (AudioProcess l)
  then show ?thesis by (simp add: onaudioprocess_def appendsFresh_def)
qed

lemma appendsFresh_run:
  "list_all (\<lambda>e. \<not> isStart e) evs \<Longrightarrow> appendsFresh s (liveRun s evs)"
proof (induction evs arbitrary: s)
  case Nil
  show ?case by (simp add: liveRun_def appendsFresh_refl)
next
  case (Cons e evs)
  then have 1: "appendsFresh s (liveStep s e)" and 2: "appendsFresh (liveStep s e) (liveRun (liveStep s e) evs)"
    by (simp_all add: appendsFresh_step)
  from appendsFresh_trans [OF 1 2] show ?case by (simp add: liveRun_def)
qed

subsection \<open>stopSession\<close>

lemma stopAllPlayback_ok:
  "snd (stopAllPlayback s) = None \<Longrightarrow>
   \<exists>l. fst (stopAllPlayback s) = s\<lparr>audioLog := l, audioSourcesRef := [], nextStartTimeRef := 0\<rparr>"
proof -
  assume ok: "snd (stopAllPlayback s) = None"
  obtain l where l: "fst (stopEach s (audioSourcesRef s)) = s\<lparr>audioLog := l\<rparr>"
    using stopEach_frame by blast
  show ?thesis
  proof (cases "snd (stopEach s (audioSourcesRef s))")
    case None
    with l have "stopEach s (audioSourcesRef s) = (s\<lparr>audioLog := l\<rparr>, None)"
      by (metis prod.collapse)
    then have "fst (stopAllPlayback s) = s\<lparr>audioLog := l, audioSourcesRef := [], nextStartTimeRef := 0\<rparr>"
      by (simp add: stopAllPlayback_def)
    then show ?thesis by blast
  next
    case (Some e)
    with l have "stopEach s (audioSourcesRef s) = (s\<lparr>audioLog := l\<rparr>, Some e)"
      by (metis prod.collapse)
    with ok show ?thesis by (simp add: stopAllPlayback_def)
  qed
qed

lemma andThen_snd_None:
  "snd (andThen x f) = None \<Longrightarrow> snd x = None \<and> andThen x f = f (fst x)"
  by (cases x; cases "snd x") auto

lemma closed_ctx: "c \<noteq> Some Running \<Longrightarrow> c \<noteq> Some Suspended \<Longrightarrow> map_option (\<lambda>_. Closed) c = c"
  by (cases c) (auto intro: ContextState.exhaust)

lemma closed_ctx_log:
  "c \<noteq> Some Running \<Longrightarrow> c \<noteq> Some Suspended \<Longrightarrow>
   (case c of None \<Rightarrow> [] | Some x \<Rightarrow> if x \<noteq> Closed then [e] else []) = []"
  by (cases c) (auto intro: ContextState.exhaust)

lemma stopSession_quiescent: "quiescent s \<Longrightarrow> stopSession s = (s, None)"
proof -
  assume q: "quiescent s"
  then have r: "releases s = []"
    by (simp add: quiescent_def isEnded_def releases_def closed_ctx_log)
  from q have pre: "s\<lparr>releaseLog := releaseLog s @ releases s,
           sessionPromiseRef := None, mediaStreamRef := None, scriptProcessorRef := None,
           sourceNodeRef := None,
           inputAudioContextRef := map_option (\<lambda>_. Closed) (inputAudioContextRef s)\<rparr> = s"
    by (simp add: r quiescent_def isEnded_def closed_ctx)
  from q have "allStarted s" by (simp add: quiescent_def isEnded_def allStarted_def)
  from stopAllPlayback_started [OF this] q have sa: "stopAllPlayback s = (s, None)"
    by (simp add: quiescent_def isEnded_def)
  from q have cf: "commitFinalUtterances s = s"
    by (simp add: commitFinalUtterances_eq quiescent_def)
  from q have post: "s\<lparr>outputAudioContextRef := map_option (\<lambda>_. Closed) (outputAudioContextRef s),
              releaseLog := releaseLog s @
                (case outputAudioContextRef s of None \<Rightarrow> []
                 | Some c \<Rightarrow> if c \<noteq> Closed then [OutputContextClose] else []),
              audioLevelRef := 0, isConnected := False, isConnecting := False\<rparr> = s"
    by (simp add: quiescent_def isEnded_def closed_ctx closed_ctx_log)
  show ?thesis
    by (subst stopSession_shape) (simp only: pre sa andThen.simps post cf)
qed

lemma map_option_closed: "map_option (\<lambda>_. Closed) c \<noteq> Some Running \<and> map_option (\<lambda>_. Closed) c \<noteq> Some Suspended"
  by (cases c) auto

lemma stopSession_ok_quiescent:
  assumes ok: "snd (stopSession s) = None"
  shows "quiescent (fst (stopSession s))"
proof -
  let ?pre = "s\<lparr>releaseLog := releaseLog s @ releases s,
           sessionPromiseRef := None, mediaStreamRef := None, scriptProcessorRef := None,
           sourceNodeRef := None,
           inputAudioContextRef := map_option (\<lambda>_. Closed) (inputAudioContextRef s)\<rparr>"
  let ?post = "(\<lambda>s8. (commitFinalUtterances
          (s8\<lparr>outputAudioContextRef := map_option (\<lambda>_. Closed) (outputAudioContextRef s8),
              releaseLog := releaseLog s8 @
                (case outputAudioContextRef s8 of None \<Rightarrow> []
                 | Some c \<Rightarrow> if c \<noteq> Closed then [OutputContextClose] else []),
              audioLevelRef := 0, isConnected := False, isConnecting := False\<rparr>), None :: exn option))"
  have shape: "stopSession s = andThen (stopAllPlayback ?pre) ?post" by (rule stopSession_shape)
  with ok have "snd (andThen (stopAllPlayback ?pre) ?post) = None" by simp
  from andThen_snd_None [OF this]
  have a: "snd (stopAllPlayback ?pre) = None"
    and b: "andThen (stopAllPlayback ?pre) ?post = ?post (fst (stopAllPlayback ?pre))" by simp_all
  from stopAllPlayback_ok [OF a] obtain l where
    l: "fst (stopAllPlayback ?pre) = ?pre\<lparr>audioLog := l, audioSourcesRef := [], nextStartTimeRef := 0\<rparr>"
    by blast
  have "fst (stopSession s) = fst (?post (fst (stopAllPlayback ?pre)))"
    using shape b by simp
  also have "\<dots> = fst (?post (?pre\<lparr>audioLog := l, audioSourcesRef := [], nextStartTimeRef := 0\<rparr>))"
    by (simp only: l)
  finally show ?thesis
    by (simp add: commitFinalUtterances_eq quiescent_def isEnded_def map_option_closed)
qed

lemma stopSession_started: "allStarted s \<Longrightarrow> snd (stopSession s) = None"
proof -
  assume a: "allStarted s"
  let ?pre = "s\<lparr>releaseLog := releaseLog s @ releases s,
           sessionPromiseRef := None, mediaStreamRef := None, scriptProcessorRef := None,
           sourceNodeRef := None,
           inputAudioContextRef := map_option (\<lambda>_. Closed) (inputAudioContextRef s)\<rparr>"
  from a have "allStarted ?pre" by (simp add: allStarted_def)
  from stopAllPlayback_started [OF this] show ?thesis
    by (subst stopSession_shape) (simp del: map_option_is_None)
qed

subsection \<open>Every source of the set has been started\<close>

lemma allStarted_stopSession: "allStarted s \<Longrightarrow> allStarted (fst (stopSession s))"
  using stopSession_ok_quiescent [OF stopSession_started]
  by (simp add: quiescent_def isEnded_def allStarted_def)

lemma sources_toolCallPart: "audioSourcesRef (fst (toolCallPart s m)) = audioSourcesRef s"
proof (cases "toolCall m")
  case None
  then show ?thesis by (simp add: toolCallPart_def)
next
  case (Some fcs)
  obtain cs rs where "fst (handleToolCalls s fcs) = s\<lparr>scratchpadCalls := cs, toolResponses := rs\<rparr>"
    using handleToolCalls_frame by blast
  with Some show ?thesis by (simp add: toolCallPart_def)
qed

lemma allStarted_playAudio: "allStarted s \<Longrightarrow> allStarted (fst (playAudio s b env))"
proof -
  assume a: "allStarted s"
  obtain c n l xs where "fst (playAudio s b env) =
      s\<lparr>outputAudioContextRef := c, nextStartTimeRef := n, audioLog := l, audioSourcesRef := xs\<rparr>"
    and "list_all (\<lambda>source. startedAt source \<noteq> None) (audioSourcesRef s) \<longrightarrow>
       list_all (\<lambda>source. startedAt source \<noteq> None) xs"
    using playAudio_frame by blast
  with a show ?thesis by (simp add: allStarted_def)
qed

lemma allStarted_stopAllPlayback: "allStarted s \<Longrightarrow> allStarted (fst (stopAllPlayback s))"
  by (simp add: stopAllPlayback_started) (simp add: allStarted_def)

lemma allStarted_playbackPart: "allStarted s \<Longrightarrow> allStarted (fst (playbackPart s m env))"
  unfolding playbackPart_def
  by (rule andThen_fst) (simp_all add: allStarted_playAudio allStarted_stopAllPlayback)

lemma allStarted_onmessage: "allStarted s \<Longrightarrow> allStarted (fst (onmessage s m env))"
  unfolding onmessage_def
proof (rule andThen_fst)
  assume "allStarted s"
  then show "allStarted (fst (toolCallPart s m))"
    by (simp add: allStarted_def sources_toolCallPart)
next
  fix t assume t: "allStarted t"
  let ?s3 = "transcriptionPart t m"
  let ?s4 = "(if turnComplete m then turnCompleteHandler ?s3 else ?s3)"
  have "audioSourcesRef ?s4 = audioSourcesRef t"
    by (simp add: turnCompleteHandler_eq transcriptionPart_eq)
  with t have "allStarted ?s4" by (simp add: allStarted_def)
  then have "allStarted (fst (playbackPart ?s4 m env))" by (rule allStarted_playbackPart)
  then show "allStarted (fst (let s3 = transcriptionPart t m;
                 s4 = (if turnComplete m then turnCompleteHandler s3 else s3)
             in playbackPart s4 m env))"
    by (simp add: Let_def)
qed

lemma allStarted_startSession: "allStarted s \<Longrightarrow> allStarted (startSession s env)"
proof -
  assume a: "allStarted s"
  show ?thesis
  proof (cases "userMediaGranted env")
    case True
    with a show ?thesis by (simp add: startSession_def Let_def allStarted_def)
  next
    case False
    have "\<And>t. allStarted t \<Longrightarrow> allStarted (fst (stopSession t))" by (rule allStarted_stopSession)
    moreover have "\<And>t. audioSourcesRef t = audioSourcesRef s \<Longrightarrow> allStarted t"
      using a by (simp add: allStarted_def)
    ultimately show ?thesis using False
      by (simp add: startSession_def Let_def)
  qed
qed

lemma list_all_take_drop: "list_all P xs \<Longrightarrow> list_all P (take i xs @ drop j xs)"
  by (auto simp: list_all_iff dest: in_set_takeD in_set_dropD)

lemma allStarted_step: "allStarted s \<Longrightarrow> allStarted (liveStep s ev)"
proof (cases ev)
  case (Start env)
  assume "allStarted s" with Start show ?thesis by (simp add: allStarted_startSession)
next
  case Open
  assume "allStarted s" with Open show ?thesis by (simp add: onopen_def Let_def allStarted_def)
next
  case (Message m env)
  assume "allStarted s" with Message show ?thesis by (simp add: allStarted_onmessage)
next
  case (ChannelError msg)
  assume "allStarted s"
  then have "allStarted (s\<lparr>error := Some msg\<rparr>)" by (simp add: allStarted_def)
  with ChannelError show ?thesis by (simp add: onerror_def allStarted_stopSession)
next
  case ChannelClose
  assume "allStarted s" with ChannelClose show ?thesis by (simp add: onclose_def allStarted_stopSession)
next
  case Stop
  assume "allStarted s" with Stop show ?thesis by (simp add: allStarted_stopSession)
next
  case (SourceEnded i)
  assume "allStarted s" with SourceEnded show ?thesis
    by (simp add: sourceEnded_def allStarted_def list_all_take_drop del: list_all_append)
next
  case (AudioProcess l)
  assume "allStarted s" with AudioProcess show ?thesis by (simp add: onaudioprocess_def allStarted_def)
qed

lemma allStarted_run: "allStarted s \<Longrightarrow> allStarted (liveRun s evs)"
  unfolding liveRun_def
  by (induction evs arbitrary: s) (simp_all add: allStarted_step)

lemma allStarted_initial: "allStarted initialState"
  by (simp add: allStarted_def initialState_def)

lemma stopSession_empty_buffers:
  assumes "userUtteranceRef s = []" "modelUtteranceRef s = []"
  shows "transcriptPart (fst (stopSession s)) = transcriptPart s"
  unfolding stopSession_shape
proof (rule andThen_fst)
  let ?pre = "s\<lparr>releaseLog := releaseLog s @ releases s,
           sessionPromiseRef := None, mediaStreamRef := None, scriptProcessorRef := None,
           sourceNodeRef := None,
           inputAudioContextRef := map_option (\<lambda>_. Closed) (inputAudioContextRef s)\<rparr>"
  have "transcriptPart ?pre = transcriptPart s" by (simp add: transcriptPart_def)
  then show "transcriptPart (fst (stopAllPlayback ?pre)) = transcriptPart s"
    by (simp add: tp_stopAllPlayback)
next
  fix t assume "transcriptPart t = transcriptPart s"
  with assms show "transcriptPart (fst (commitFinalUtterances
          (t\<lparr>outputAudioContextRef := map_option (\<lambda>_. Closed) (outputAudioContextRef t),
              releaseLog := releaseLog t @
                (case outputAudioContextRef t of None \<Rightarrow> []
                 | Some c \<Rightarrow> if c \<noteq> Closed then [OutputContextClose] else []),
              audioLevelRef := 0, isConnected := False, isConnecting := False\<rparr>), None :: exn option)) = transcriptPart s"
    by (simp add: commitFinalUtterances_eq transcriptPart_def)
qed

lemma startSession_resets:
  "transcriptHistory (startSession s env) = [] \<and> transcriptIdCounter (startSession s env) = 0"
proof (cases "userMediaGranted env")
  case True
  then show ?thesis by (simp add: startSession_def Let_def)
next
  case False
  have "\<And>t. userUtteranceRef t = [] \<Longrightarrow> modelUtteranceRef t = [] \<Longrightarrow>
      transcriptHistory t = [] \<Longrightarrow> transcriptIdCounter t = 0 \<Longrightarrow>
      transcriptHistory (fst (stopSession t)) = [] \<and> transcriptIdCounter (fst (stopSession t)) = 0"
    using stopSession_empty_buffers by (simp add: transcriptPart_def)
  with False show ?thesis by (simp add: startSession_def Let_def)
qed

text \<open>
  Claim C9. Starting a session empties the history and sets the counter to 0. After any
  events of that session (anything but another start), the ids in the history are
  \<open>t_1, t_2, ...\<close> up to the counter, in that order, so they increase strictly and none
  is used twice. From any state, events other than a start only append to the history
  and never lower the counter.
\<close>

theorem transcript_ids_fresh:
  assumes "list_all (\<lambda>e. \<not> isStart e) evs"
  shows "transcriptHistory (startSession s env) = [] \<and>
         transcriptIdCounter (startSession s env) = 0 \<and>
         map t_id (transcriptHistory (liveRun (startSession s env) evs)) =
           map transcriptId [1 ..< Suc (transcriptIdCounter (liveRun (startSession s env) evs))] \<and>
         distinct (map t_id (transcriptHistory (liveRun (startSession s env) evs))) \<and>
         (\<exists>new. transcriptHistory (liveRun t evs) = transcriptHistory t @ new) \<and>
         transcriptIdCounter t \<le> transcriptIdCounter (liveRun t evs)"
proof -
  let ?s0 = "startSession s env"
  note r = startSession_resets [of s env]
  from appendsFresh_run [OF assms, of ?s0] r
  have ids: "map t_id (transcriptHistory (liveRun ?s0 evs)) =
           map transcriptId [1 ..< Suc (transcriptIdCounter (liveRun ?s0 evs))]"
    by (auto simp: appendsFresh_def)
  have "distinct (map transcriptId [1 ..< Suc (transcriptIdCounter (liveRun ?s0 evs))])"
    by (simp add: distinct_map inj_on_def transcriptId_inj)
  with ids have d: "distinct (map t_id (transcriptHistory (liveRun ?s0 evs)))" by simp
  from appendsFresh_run [OF assms, of t]
  have a: "(\<exists>new. transcriptHistory (liveRun t evs) = transcriptHistory t @ new) \<and>
         transcriptIdCounter t \<le> transcriptIdCounter (liveRun t evs)"
    by (auto simp: appendsFresh_def)
  from r ids d a show ?thesis by blast
qed

lemma demo_history:
  "transcriptHistory (liveRun (startSession initialState demoStart) [Open, Message demoMessage demoEnv, Stop]) =
       [\<lparr>t_id = js ''t_1'', t_text = js ''What is the total?'', t_source = User\<rparr>,
        \<lparr>t_id = js ''t_2'', t_text = js ''It is 42.'', t_source = Model\<rparr>]"
  by code_simp

theorem transcript_ids_fresh_witness:
  "transcriptHistory (liveRun (startSession initialState demoStart)
       [Open, Message demoMessage demoEnv, Stop]) =
       [\<lparr>t_id = js ''t_1'', t_text = js ''What is the total?'', t_source = User\<rparr>,
        \<lparr>t_id = js ''t_2'', t_text = js ''It is 42.'', t_source = Model\<rparr>] \<and>
   distinct (map t_id (transcriptHistory (liveRun (startSession initialState demoStart)
       [Open, Message demoMessage demoEnv, Stop])))"
proof -
  have h: "list_all (\<lambda>e. \<not> isStart e) [Open, Message demoMessage demoEnv, Stop]" by simp
  from transcript_ids_fresh [OF h, of initialState demoStart] demo_history
  show ?thesis by blast
qed

lemma andThen_ok: "snd x = None \<Longrightarrow> andThen x f = f (fst x)"
  by (cases x) auto

text \<open>
  Claim C1. When a message carrying the turn-complete marker arrives (and its tool-call
  part, if any, raises nothing), both buffers, with the partial text the same message
  adds, are trimmed; the history gains one entry with the trimmed user text if it is not
  empty, then one with the trimmed model text if it is not empty, with the next ids of
  the counter in that order; the counter advances by the number of entries; both buffers
  end empty. In particular, when only the model text is non-empty, exactly one entry,
  of source model, is appended. The turn-complete branch itself does this on the
  buffers of any state.
\<close>

theorem onmessage_turnComplete:
  assumes "turnComplete message"
    and "snd (toolCallPart s message) = None"
    and "u = trim (userUtteranceRef s @
                   (case inputTranscription message of None \<Rightarrow> [] | Some t \<Rightarrow> textOf t))"
    and "m = trim (modelUtteranceRef s @
                   (case outputTranscription message of None \<Rightarrow> [] | Some t \<Rightarrow> textOf t))"
    and "s' = fst (onmessage s message env)"
    and "c = transcriptIdCounter s"
  shows "transcriptHistory s' = transcriptHistory s @
           (if u \<noteq> [] then [\<lparr>t_id = transcriptId (c + 1), t_text = u, t_source = User\<rparr>] else []) @
           (if m \<noteq> []
            then [\<lparr>t_id = transcriptId (c + (if u \<noteq> [] then 1 else 0) + 1), t_text = m,
                   t_source = Model\<rparr>]
            else []) \<and>
         transcriptIdCounter s' = c + (if u \<noteq> [] then 1 else 0) + (if m \<noteq> [] then 1 else 0) \<and>
         userUtteranceRef s' = [] \<and> modelUtteranceRef s' = [] \<and>
         (u = [] \<and> m \<noteq> [] \<longrightarrow>
            transcriptHistory s' = transcriptHistory s @
              [\<lparr>t_id = transcriptId (c + 1), t_text = m, t_source = Model\<rparr>]) \<and>
         turnCompleteHandler s0 =
           s0\<lparr>transcriptIdCounter :=
                 transcriptIdCounter s0 + (if trim (userUtteranceRef s0) \<noteq> [] then 1 else 0)
                   + (if trim (modelUtteranceRef s0) \<noteq> [] then 1 else 0),
              transcriptHistory := transcriptHistory s0 @
                (if trim (userUtteranceRef s0) \<noteq> []
                 then [\<lparr>t_id = transcriptId (transcriptIdCounter s0 + 1),
                        t_text = trim (userUtteranceRef s0), t_source = User\<rparr>] else []) @
                (if trim (modelUtteranceRef s0) \<noteq> []
                 then [\<lparr>t_id = transcriptId (transcriptIdCounter s0
                                 + (if trim (userUtteranceRef s0) \<noteq> [] then 1 else 0) + 1),
                        t_text = trim (modelUtteranceRef s0), t_source = Model\<rparr>] else []),
              userUtteranceRef := [], modelUtteranceRef := []\<rparr>"
proof (intro conjI)
  let ?s1 = "fst (toolCallPart s message)"
  let ?s3 = "transcriptionPart ?s1 message"
  have s1: "transcriptPart ?s1 = transcriptPart s" by (rule tp_toolCallPart)
  have "onmessage s message env = playbackPart (turnCompleteHandler ?s3) message env"
    unfolding onmessage_def andThen_ok [OF assms(2)] using assms(1) by (simp add: Let_def)
  then have tp: "transcriptPart s' = transcriptPart (turnCompleteHandler ?s3)"
    unfolding assms(5) by (simp add: tp_playbackPart)
  have 3: "transcriptHistory ?s3 = transcriptHistory s" "transcriptIdCounter ?s3 = c"
    "trim (userUtteranceRef ?s3) = u" "trim (modelUtteranceRef ?s3) = m"
    using s1 assms(3,4,6) by (simp_all add: transcriptPart_def transcriptionPart_eq)
  from tp have all: "transcriptHistory s' = transcriptHistory s @
           (if u \<noteq> [] then [\<lparr>t_id = transcriptId (c + 1), t_text = u, t_source = User\<rparr>] else []) @
           (if m \<noteq> []
            then [\<lparr>t_id = transcriptId (c + (if u \<noteq> [] then 1 else 0) + 1), t_text = m,
                   t_source = Model\<rparr>]
            else []) \<and>
         transcriptIdCounter s' = c + (if u \<noteq> [] then 1 else 0) + (if m \<noteq> [] then 1 else 0) \<and>
         userUtteranceRef s' = [] \<and> modelUtteranceRef s' = []"
    unfolding turnCompleteHandler_eq transcriptPart_def by (simp add: 3)
  from all show "transcriptHistory s' = transcriptHistory s @
           (if u \<noteq> [] then [\<lparr>t_id = transcriptId (c + 1), t_text = u, t_source = User\<rparr>] else []) @
           (if m \<noteq> []
            then [\<lparr>t_id = transcriptId (c + (if u \<noteq> [] then 1 else 0) + 1), t_text = m,
                   t_source = Model\<rparr>]
            else [])" by blast
  from all show "transcriptIdCounter s' =
      c + (if u \<noteq> [] then 1 else 0) + (if m \<noteq> [] then 1 else 0)" by blast
  from all show "userUtteranceRef s' = []" by blast
  from all show "modelUtteranceRef s' = []" by blast
  from all show "u = [] \<and> m \<noteq> [] \<longrightarrow>
            transcriptHistory s' = transcriptHistory s @
              [\<lparr>t_id = transcriptId (c + 1), t_text = m, t_source = Model\<rparr>]" by simp
  show "turnCompleteHandler s0 =
           s0\<lparr>transcriptIdCounter :=
                 transcriptIdCounter s0 + (if trim (userUtteranceRef s0) \<noteq> [] then 1 else 0)
                   + (if trim (modelUtteranceRef s0) \<noteq> [] then 1 else 0),
              transcriptHistory := transcriptHistory s0 @
                (if trim (userUtteranceRef s0) \<noteq> []
                 then [\<lparr>t_id = transcriptId (transcriptIdCounter s0 + 1),
                        t_text = trim (userUtteranceRef s0), t_source = User\<rparr>] else []) @
                (if trim (modelUtteranceRef s0) \<noteq> []
                 then [\<lparr>t_id = transcriptId (transcriptIdCounter s0
                                 + (if trim (userUtteranceRef s0) \<noteq> [] then 1 else 0) + 1),
                        t_text = trim (modelUtteranceRef s0), t_source = Model\<rparr>] else []),
              userUtteranceRef := [], modelUtteranceRef := []\<rparr>"
    by (rule turnCompleteHandler_eq)
qed

theorem onmessage_turnComplete_witness:
  "transcriptHistory (fst (onmessage initialState demoMessage demoEnv)) =
     [\<lparr>t_id = js ''t_1'', t_text = js ''What is the total?'', t_source = User\<rparr>,
      \<lparr>t_id = js ''t_2'', t_text = js ''It is 42.'', t_source = Model\<rparr>] \<and>
   transcriptIdCounter (fst (onmessage initialState demoMessage demoEnv)) = 2"
proof -
  have t: "turnComplete demoMessage" by (simp add: demoMessage_def)
  have n: "snd (toolCallPart initialState demoMessage) = None"
    by (simp add: demoMessage_def toolCallPart_def)
  have u: "js ''What is the total?'' = trim (userUtteranceRef initialState @
        (case inputTranscription demoMessage of None \<Rightarrow> [] | Some t \<Rightarrow> textOf t))"
    by code_simp
  have m: "js ''It is 42.'' = trim (modelUtteranceRef initialState @
        (case outputTranscription demoMessage of None \<Rightarrow> [] | Some t \<Rightarrow> textOf t))"
    by code_simp
  have c: "0 = transcriptIdCounter initialState" by (simp add: initialState_def)
  have ne: "js ''What is the total?'' \<noteq> []" "js ''It is 42.'' \<noteq> []" by (simp_all add: js_def)
  have h: "transcriptHistory initialState = []" by (simp add: initialState_def)
  have i1: "transcriptId 1 = js ''t_1''" by code_simp
  have i2: "transcriptId 2 = js ''t_2''" by code_simp
  have ids: "transcriptId (Suc 0) = js ''t_1''" "transcriptId (Suc (Suc 0)) = js ''t_2''"
    using i1 i2 by (simp_all only: One_nat_def numeral_2_eq_2)
  from onmessage_turnComplete [where env = demoEnv, OF t n u m refl c] ne h
  show ?thesis by (simp add: ids)
qed

lemma space_buffer:
  "userUtteranceRef (liveRun initialState [Start demoStart, Open, Message spaceMessage demoEnv]) =
     js '' ''"
  by code_simp

lemma space_trimmed: "trim (js '' '') = []"
  by code_simp

lemma space_stop_history:
  "transcriptHistory
     (liveRun initialState [Start demoStart, Open, Message spaceMessage demoEnv, Stop]) =
     [\<lparr>t_id = js ''t_1'', t_text = js '' '', t_source = User\<rparr>]"
  by code_simp

lemma space_turn_history:
  "transcriptHistory (turnCompleteHandler
      (liveRun initialState [Start demoStart, Open, Message spaceMessage demoEnv])) = []"
  by code_simp

text \<open>
  Claim C5, the code at the failing input: a session whose only partial transcription is
  one space, stopped before any turn-complete marker. \<open>stopSession\<close> commits the
  untrimmed buffer, an entry whose text is the space, where the claim (and the commit
  of the turn-complete branch, on the same buffers) gives no entry.
\<close>

theorem stopSession_commits_untrimmed:
  "userUtteranceRef (liveRun initialState [Start demoStart, Open, Message spaceMessage demoEnv]) =
     js '' '' \<and>
   trim (js '' '') = [] \<and>
   transcriptHistory
     (liveRun initialState [Start demoStart, Open, Message spaceMessage demoEnv, Stop]) =
     [\<lparr>t_id = js ''t_1'', t_text = js '' '', t_source = User\<rparr>] \<and>
   transcriptHistory (turnCompleteHandler
      (liveRun initialState [Start demoStart, Open, Message spaceMessage demoEnv])) = []"
  using space_buffer space_trimmed space_stop_history space_turn_history by blast

lemma stopSession_ok_releaseLog:
  assumes ok: "snd (stopSession s) = None"
  shows "releaseLog (fst (stopSession s)) =
           releaseLog s @ releases s @
             (case outputAudioContextRef s of None \<Rightarrow> []
              | Some c \<Rightarrow> if c \<noteq> Closed then [OutputContextClose] else [])"
proof -
  let ?pre = "s\<lparr>releaseLog := releaseLog s @ releases s,
           sessionPromiseRef := None, mediaStreamRef := None, scriptProcessorRef := None,
           sourceNodeRef := None,
           inputAudioContextRef := map_option (\<lambda>_. Closed) (inputAudioContextRef s)\<rparr>"
  let ?post = "(\<lambda>s8. (commitFinalUtterances
          (s8\<lparr>outputAudioContextRef := map_option (\<lambda>_. Closed) (outputAudioContextRef s8),
              releaseLog := releaseLog s8 @
                (case outputAudioContextRef s8 of None \<Rightarrow> []
                 | Some c \<Rightarrow> if c \<noteq> Closed then [OutputContextClose] else []),
              audioLevelRef := 0, isConnected := False, isConnecting := False\<rparr>), None :: exn option))"
  have shape: "stopSession s = andThen (stopAllPlayback ?pre) ?post" by (rule stopSession_shape)
  with ok have "snd (andThen (stopAllPlayback ?pre) ?post) = None" by simp
  from andThen_snd_None [OF this]
  have a: "snd (stopAllPlayback ?pre) = None"
    and b: "andThen (stopAllPlayback ?pre) ?post = ?post (fst (stopAllPlayback ?pre))" by simp_all
  from stopAllPlayback_ok [OF a] obtain l where
    l: "fst (stopAllPlayback ?pre) = ?pre\<lparr>audioLog := l, audioSourcesRef := [], nextStartTimeRef := 0\<rparr>"
    by blast
  have "fst (stopSession s) = fst (?post (fst (stopAllPlayback ?pre)))"
    using shape b by simp
  also have "\<dots> = fst (?post (?pre\<lparr>audioLog := l, audioSourcesRef := [], nextStartTimeRef := 0\<rparr>))"
    by (simp only: l)
  finally show ?thesis
    by (simp add: commitFinalUtterances_eq)
qed

lemma quiescent_initial: "quiescent initialState"
  by (simp add: quiescent_def isEnded_def initialState_def)

lemma stopEach_ok_started:
  "snd (stopEach s xs) = None \<Longrightarrow> list_all (\<lambda>source. startedAt source \<noteq> None) xs"
  by (induction xs arbitrary: s) (auto split: if_splits)

lemma stopAllPlayback_ok_log:
  assumes "snd (stopAllPlayback s) = None"
  shows "fst (stopAllPlayback s) =
           s\<lparr>audioLog := audioLog s @ replicate (length (audioSourcesRef s)) SourceStop,
              audioSourcesRef := [], nextStartTimeRef := 0\<rparr>"
proof -
  from assms have "snd (stopEach s (audioSourcesRef s)) = None"
    unfolding stopAllPlayback_def by (rule andThen_snd_None [THEN conjunct1])
  then have "list_all (\<lambda>source. startedAt source \<noteq> None) (audioSourcesRef s)"
    by (rule stopEach_ok_started)
  from stopEach_started [OF this, of s] show ?thesis
    by (simp add: stopAllPlayback_def)
qed

lemma stopSession_ok_audioLog:
  assumes ok: "snd (stopSession s) = None"
  shows "audioLog (fst (stopSession s)) =
           audioLog s @ replicate (length (audioSourcesRef s)) SourceStop"
proof -
  let ?pre = "s\<lparr>releaseLog := releaseLog s @ releases s,
           sessionPromiseRef := None, mediaStreamRef := None, scriptProcessorRef := None,
           sourceNodeRef := None,
           inputAudioContextRef := map_option (\<lambda>_. Closed) (inputAudioContextRef s)\<rparr>"
  let ?post = "(\<lambda>s8. (commitFinalUtterances
          (s8\<lparr>outputAudioContextRef := map_option (\<lambda>_. Closed) (outputAudioContextRef s8),
              releaseLog := releaseLog s8 @
                (case outputAudioContextRef s8 of None \<Rightarrow> []
                 | Some c \<Rightarrow> if c \<noteq> Closed then [OutputContextClose] else []),
              audioLevelRef := 0, isConnected := False, isConnecting := False\<rparr>), None :: exn option))"
  have shape: "stopSession s = andThen (stopAllPlayback ?pre) ?post" by (rule stopSession_shape)
  with ok have "snd (andThen (stopAllPlayback ?pre) ?post) = None" by simp
  from andThen_snd_None [OF this]
  have a: "snd (stopAllPlayback ?pre) = None"
    and b: "andThen (stopAllPlayback ?pre) ?post = ?post (fst (stopAllPlayback ?pre))" by simp_all
  note l = stopAllPlayback_ok_log [OF a]
  have "fst (stopSession s) = fst (?post (fst (stopAllPlayback ?pre)))"
    using shape b by simp
  also have "\<dots> = fst (?post (?pre\<lparr>audioLog := audioLog ?pre @
        replicate (length (audioSourcesRef ?pre)) SourceStop,
      audioSourcesRef := [], nextStartTimeRef := 0\<rparr>))"
    by (simp only: l)
  finally show ?thesis
    by (simp add: commitFinalUtterances_eq)
qed

lemma demoSession_audio:
  "audioLog demoSession = [SourceStart 1 2]"
  "audioSourcesRef demoSession = [\<lparr>duration = 2, startedAt = Some 1\<rparr>]"
  by code_simp+

text \<open>
  Claim C6. \<open>stopSession\<close> before any start raises nothing and changes nothing: the
  initial state is already ended. Whenever a stop raises nothing, it leaves the session
  ended: not connected, not connecting, the session promise, media stream, script
  processor and source node refs null, no source playing, the next start time and the
  loudness 0; it has called the release of every resource whose ref was set, and \<open>stop\<close>
  once for each source of the set, after whatever the audio output was told before; and a
  second stop right after it raises nothing and leaves that state as it is. A stop raises
  nothing in any state the hook can reach from its initial state.
\<close>

theorem stopSession_idempotent:
  "stopSession initialState = (initialState, None) \<and> isEnded initialState \<and>
   (snd (stopSession s) = None \<longrightarrow>
      isEnded (fst (stopSession s)) \<and>
      stopSession (fst (stopSession s)) = (fst (stopSession s), None) \<and>
      releaseLog (fst (stopSession s)) =
        releaseLog s @
        (case sessionPromiseRef s of Some (Resolves _) \<Rightarrow> [SessionClose] | _ \<Rightarrow> []) @
        (if mediaStreamRef s \<noteq> None then [TracksStop] else []) @
        (if scriptProcessorRef s \<noteq> None then [ProcessorDisconnect] else []) @
        (if sourceNodeRef s \<noteq> None then [SourceNodeDisconnect] else []) @
        (case inputAudioContextRef s of None \<Rightarrow> []
         | Some c \<Rightarrow> if c \<noteq> Closed then [InputContextClose] else []) @
        (case outputAudioContextRef s of None \<Rightarrow> []
         | Some c \<Rightarrow> if c \<noteq> Closed then [OutputContextClose] else []) \<and>
      audioLog (fst (stopSession s)) =
        audioLog s @ replicate (length (audioSourcesRef s)) SourceStop) \<and>
   snd (stopSession (liveRun initialState evs)) = None"
proof -
  have 1: "stopSession initialState = (initialState, None)"
    by (rule stopSession_quiescent [OF quiescent_initial])
  have 2: "isEnded initialState" using quiescent_initial by (simp add: quiescent_def)
  have 3: "snd (stopSession s) = None \<longrightarrow>
      isEnded (fst (stopSession s)) \<and>
      stopSession (fst (stopSession s)) = (fst (stopSession s), None) \<and>
      releaseLog (fst (stopSession s)) =
        releaseLog s @
        (case sessionPromiseRef s of Some (Resolves _) \<Rightarrow> [SessionClose] | _ \<Rightarrow> []) @
        (if mediaStreamRef s \<noteq> None then [TracksStop] else []) @
        (if scriptProcessorRef s \<noteq> None then [ProcessorDisconnect] else []) @
        (if sourceNodeRef s \<noteq> None then [SourceNodeDisconnect] else []) @
        (case inputAudioContextRef s of None \<Rightarrow> []
         | Some c \<Rightarrow> if c \<noteq> Closed then [InputContextClose] else []) @
        (case outputAudioContextRef s of None \<Rightarrow> []
         | Some c \<Rightarrow> if c \<noteq> Closed then [OutputContextClose] else []) \<and>
      audioLog (fst (stopSession s)) =
        audioLog s @ replicate (length (audioSourcesRef s)) SourceStop"
  proof
    assume ok: "snd (stopSession s) = None"
    from stopSession_ok_quiescent [OF ok] have q: "quiescent (fst (stopSession s))" .
    then have a: "isEnded (fst (stopSession s))" by (simp add: quiescent_def)
    from stopSession_quiescent [OF q]
    have b: "stopSession (fst (stopSession s)) = (fst (stopSession s), None)" .
    from stopSession_ok_releaseLog [OF ok]
    have c: "releaseLog (fst (stopSession s)) =
        releaseLog s @
        (case sessionPromiseRef s of Some (Resolves _) \<Rightarrow> [SessionClose] | _ \<Rightarrow> []) @
        (if mediaStreamRef s \<noteq> None then [TracksStop] else []) @
        (if scriptProcessorRef s \<noteq> None then [ProcessorDisconnect] else []) @
        (if sourceNodeRef s \<noteq> None then [SourceNodeDisconnect] else []) @
        (case inputAudioContextRef s of None \<Rightarrow> []
         | Some c \<Rightarrow> if c \<noteq> Closed then [InputContextClose] else []) @
        (case outputAudioContextRef s of None \<Rightarrow> []
         | Some c \<Rightarrow> if c \<noteq> Closed then [OutputContextClose] else [])"
      by (simp add: releases_def)
    note d = stopSession_ok_audioLog [OF ok]
    from a b c d show "isEnded (fst (stopSession s)) \<and>
      stopSession (fst (stopSession s)) = (fst (stopSession s), None) \<and>
      releaseLog (fst (stopSession s)) =
        releaseLog s @
        (case sessionPromiseRef s of Some (Resolves _) \<Rightarrow> [SessionClose] | _ \<Rightarrow> []) @
        (if mediaStreamRef s \<noteq> None then [TracksStop] else []) @
        (if scriptProcessorRef s \<noteq> None then [ProcessorDisconnect] else []) @
        (if sourceNodeRef s \<noteq> None then [SourceNodeDisconnect] else []) @
        (case inputAudioContextRef s of None \<Rightarrow> []
         | Some c \<Rightarrow> if c \<noteq> Closed then [InputContextClose] else []) @
        (case outputAudioContextRef s of None \<Rightarrow> []
         | Some c \<Rightarrow> if c \<noteq> Closed then [OutputContextClose] else []) \<and>
      audioLog (fst (stopSession s)) =
        audioLog s @ replicate (length (audioSourcesRef s)) SourceStop" by blast
  qed
  have 4: "snd (stopSession (liveRun initialState evs)) = None"
    by (rule stopSession_started [OF allStarted_run [OF allStarted_initial]])
  from 1 2 3 4 show ?thesis by blast
qed

lemma demoSession_facts:
  "snd (stopSession demoSession) = None"
  "\<not> isEnded demoSession"
  "length (audioSourcesRef demoSession) = 1"
  "releaseLog demoSession = []"
  "sessionPromiseRef demoSession = Some (Resolves True)"
  "mediaStreamRef demoSession = Some ()"
  "scriptProcessorRef demoSession = Some ()"
  "sourceNodeRef demoSession = Some ()"
  "inputAudioContextRef demoSession = Some Running"
  "outputAudioContextRef demoSession = Some Running"
  by code_simp+

theorem stopSession_idempotent_witness:
  "snd (stopSession demoSession) = None \<and> \<not> isEnded demoSession \<and>
   isEnded (fst (stopSession demoSession)) \<and>
   stopSession (fst (stopSession demoSession)) = (fst (stopSession demoSession), None) \<and>
   releaseLog (fst (stopSession demoSession)) =
     [SessionClose, TracksStop, ProcessorDisconnect, SourceNodeDisconnect,
      InputContextClose, OutputContextClose] \<and>
   audioSourcesRef demoSession = [\<lparr>duration = 2, startedAt = Some 1\<rparr>] \<and>
   audioLog demoSession = [SourceStart 1 2] \<and>
   audioLog (fst (stopSession demoSession)) = [SourceStart 1 2, SourceStop]"
  using stopSession_idempotent [of demoSession] demoSession_facts demoSession_audio by simp










section \<open>Properties of the playback schedule and of read aloud\<close>

lemma noOverlap_snoc:
  "noOverlap (es @ [e]) = (noOverlap es \<and> (es \<noteq> [] \<longrightarrow> fst (last es) + snd (last es) \<le> fst e))"
  by (induction es rule: noOverlap.induct) auto

lemma noOverlap_nth:
  "noOverlap es \<Longrightarrow> Suc k < length es \<Longrightarrow> fst (es ! k) + snd (es ! k) \<le> fst (es ! Suc k)"
proof (induction es arbitrary: k rule: noOverlap.induct)
  case (3 e1 e2 es)
  then show ?case by (cases k) auto
qed simp_all

lemma noOverlap_sorted:
  "noOverlap es \<Longrightarrow> \<forall>e\<in>set es. 0 \<le> snd e \<Longrightarrow> sorted (map fst es)"
proof (induction es rule: noOverlap.induct)
  case (3 e1 e2 es)
  then have s: "sorted (map fst (e2 # es))" and le: "fst e1 \<le> fst e2" by auto
  then have "\<forall>x\<in>set (map fst (e2 # es)). fst e1 \<le> x" by (auto simp: order_trans)
  with s show ?case by simp
qed simp_all

lemma scheduled_append: "scheduled (xs @ ys) = scheduled xs @ scheduled ys"
  by (induction xs rule: scheduled.induct) auto

lemma ttsScheduled_append: "ttsScheduled (xs @ ys) = ttsScheduled xs @ ttsScheduled ys"
  by (induction xs rule: ttsScheduled.induct) auto

lemma playAudio_cases:
  "(outputAudioContextRef s = None \<and> fst (playAudio s b env) = s) \<or>
   (\<exists>c. decodeResult env = None \<and>
        fst (playAudio s b env) =
          s\<lparr>outputAudioContextRef := c,
             nextStartTimeRef := max (nextStartTimeRef s) (currentTime env)\<rparr>) \<or>
   (\<exists>c d. outputAudioContextRef s \<noteq> None \<and> decodeResult env = Some d \<and>
        playAudio s b env =
          (s\<lparr>outputAudioContextRef := c,
              nextStartTimeRef := max (nextStartTimeRef s) (currentTime env) + d,
              audioLog := audioLog s @ [SourceStart (max (nextStartTimeRef s) (currentTime env)) d],
              audioSourcesRef := audioSourcesRef s @
                [\<lparr>duration = d, startedAt = Some (max (nextStartTimeRef s) (currentTime env))\<rparr>]\<rparr>,
           None))"
proof (cases "outputAudioContextRef s")
  case None
  then show ?thesis by (simp add: playAudio_def)
next
  case (Some ctx)
  show ?thesis
  proof (cases "decodeResult env")
    case None
    with Some have "fst (playAudio s b env) =
          s\<lparr>outputAudioContextRef := (if ctx = Suspended then Some Running else Some ctx),
             nextStartTimeRef := max (nextStartTimeRef s) (currentTime env)\<rparr>"
      by (simp add: playAudio_def Let_def)
    with None show ?thesis by blast
  next
    case d: (Some d)
    with Some have "playAudio s b env =
          (s\<lparr>outputAudioContextRef := (if ctx = Suspended then Some Running else Some ctx),
              nextStartTimeRef := max (nextStartTimeRef s) (currentTime env) + d,
              audioLog := audioLog s @ [SourceStart (max (nextStartTimeRef s) (currentTime env)) d],
              audioSourcesRef := audioSourcesRef s @
                [\<lparr>duration = d, startedAt = Some (max (nextStartTimeRef s) (currentTime env))\<rparr>]\<rparr>,
           None)"
      by (simp add: playAudio_def Let_def)
    with Some d show ?thesis by blast
  qed
qed

lemma gapless_playAudio:
  assumes "gapless (scheduled (audioLog s)) (nextStartTimeRef s)"
  shows "gapless (scheduled (audioLog (fst (playAudio s b env))))
           (nextStartTimeRef (fst (playAudio s b env)))"
  using playAudio_cases [of s b env] assms
  by (auto simp: gapless_def scheduled_append noOverlap_snoc)

lemma gapless_playAudioSeq:
  "gapless (scheduled (audioLog s)) (nextStartTimeRef s) \<Longrightarrow>
   gapless (scheduled (audioLog (playAudioSeq s ps))) (nextStartTimeRef (playAudioSeq s ps))"
  by (induction ps arbitrary: s) (auto simp: gapless_playAudio)


text \<open>The end of a source leaves the log, the next start time and the context as they
  are.\<close>

lemma ttsSourceEnded_frame:
  "\<exists>xs st a. ttsSourceEnded s k =
     s\<lparr>ttsAudioSourcesRef := xs, ttsStatus := st, activeSentenceIndex := a\<rparr>"
proof (cases "take k (ttsAudioSourcesRef s) @ drop (Suc k) (ttsAudioSourcesRef s) = [] \<and>
    \<not> isCancelledRef s")
  case True
  then have "ttsSourceEnded s k =
      s\<lparr>ttsAudioSourcesRef := take k (ttsAudioSourcesRef s) @ drop (Suc k) (ttsAudioSourcesRef s),
         ttsStatus := Idle, activeSentenceIndex := None\<rparr>"
    by (simp add: ttsSourceEnded_def Let_def)
  then show ?thesis by blast
next
  case False
  then have "ttsSourceEnded s k =
      s\<lparr>ttsAudioSourcesRef := take k (ttsAudioSourcesRef s) @ drop (Suc k) (ttsAudioSourcesRef s),
         ttsStatus := ttsStatus s, activeSentenceIndex := activeSentenceIndex s\<rparr>"
    by (auto simp: ttsSourceEnded_def Let_def)
  then show ?thesis by blast
qed

lemma pageSteps_noClick:
  "list_all noClick evs \<Longrightarrow>
   \<exists>xs st a. pageSteps s evs =
     s\<lparr>ttsAudioSourcesRef := xs, ttsStatus := st, activeSentenceIndex := a\<rparr>"
proof (induction evs arbitrary: s)
  case Nil
  have "pageSteps s [] = s\<lparr>ttsAudioSourcesRef := ttsAudioSourcesRef s, ttsStatus := ttsStatus s,
      activeSentenceIndex := activeSentenceIndex s\<rparr>"
    by (simp add: pageSteps_def)
  then show ?case by blast
next
  case (Cons ev evs)
  then obtain k where ev: "ev = TtsSourceEnded k" by (cases ev) auto
  obtain xs st a where 1: "ttsSourceEnded s k =
      s\<lparr>ttsAudioSourcesRef := xs, ttsStatus := st, activeSentenceIndex := a\<rparr>"
    using ttsSourceEnded_frame by blast
  from Cons.prems have "list_all noClick evs" by simp
  from Cons.IH [OF this, of "ttsSourceEnded s k"] obtain xs' st' a' where
    2: "pageSteps (ttsSourceEnded s k) evs =
      (ttsSourceEnded s k)\<lparr>ttsAudioSourcesRef := xs', ttsStatus := st', activeSentenceIndex := a'\<rparr>"
    by blast
  have "pageSteps s (ev # evs) = pageSteps (ttsSourceEnded s k) evs"
    by (simp add: pageSteps_def ev)
  also have "\<dots> = s\<lparr>ttsAudioSourcesRef := xs', ttsStatus := st', activeSentenceIndex := a'\<rparr>"
    unfolding 2 by (simp add: 1)
  finally show ?case by blast
qed

lemma queueAndPlayAudio_cases:
  assumes "list_all noClick (duringDecode env)"
  shows
  "(ttsLog (fst (queueAndPlayAudio s b env)) = ttsLog s \<and>
    nextTtsStartTimeRef (fst (queueAndPlayAudio s b env)) = nextTtsStartTimeRef s) \<or>
   (\<exists>d. decodeResult (audio env) = Some d \<and>
        snd (queueAndPlayAudio s b env) = None \<and>
        ttsLog (fst (queueAndPlayAudio s b env)) =
          ttsLog s @ [TtsSourceStart (max (nextTtsStartTimeRef s) (currentTime (audio env))) d] \<and>
        nextTtsStartTimeRef (fst (queueAndPlayAudio s b env)) =
          max (nextTtsStartTimeRef s) (currentTime (audio env)) + d)"
proof -
  let ?s1 = "getTtsAudioContext s (audioContextAvailable env)"
  have s1: "ttsLog ?s1 = ttsLog s" "nextTtsStartTimeRef ?s1 = nextTtsStartTimeRef s"
    by (simp_all add: getTtsAudioContext_def)
  show ?thesis
  proof (cases "ttsAudioContextRef ?s1")
    case None
    then have "fst (queueAndPlayAudio s b env) = ?s1"
      by (simp add: queueAndPlayAudio_def Let_def)
    with s1 show ?thesis by simp
  next
    case (Some ctx)
    let ?s2 = "(if ctx = Suspended then ?s1\<lparr>ttsAudioContextRef := Some Running\<rparr> else ?s1)"
    let ?s3 = "pageSteps ?s2 (duringDecode env)"
    obtain xs st a where "?s3 =
        ?s2\<lparr>ttsAudioSourcesRef := xs, ttsStatus := st, activeSentenceIndex := a\<rparr>"
      using pageSteps_noClick [OF assms] by blast
    then have s3: "ttsLog ?s3 = ttsLog s" "nextTtsStartTimeRef ?s3 = nextTtsStartTimeRef s"
      using s1 by simp_all
    show ?thesis
    proof (cases "decodeResult (audio env)")
      case None
      with Some have "fst (queueAndPlayAudio s b env) = ?s3"
        by (simp add: queueAndPlayAudio_def Let_def)
      with s3 show ?thesis by simp
    next
      case d: (Some d)
      let ?t = "max (nextTtsStartTimeRef ?s3) (currentTime (audio env))"
      from Some d have "queueAndPlayAudio s b env =
          (?s3\<lparr>ttsLog := ttsLog ?s3 @ [TtsSourceStart ?t d],
               nextTtsStartTimeRef := ?t + d,
               ttsAudioSourcesRef := ttsAudioSourcesRef ?s3 @ [\<lparr>duration = d, startedAt = Some ?t\<rparr>]\<rparr>,
           None)"
        by (simp add: queueAndPlayAudio_def Let_def)
      with s3 d show ?thesis by simp
    qed
  qed
qed

lemma gapless_queueAndPlayAudio:
  assumes "list_all noClick (duringDecode env)"
    and "gapless (ttsScheduled (ttsLog s)) (nextTtsStartTimeRef s)"
  shows "gapless (ttsScheduled (ttsLog (fst (queueAndPlayAudio s b env))))
           (nextTtsStartTimeRef (fst (queueAndPlayAudio s b env)))"
  using queueAndPlayAudio_cases [OF assms(1), of s b] assms(2)
  by (auto simp: gapless_def ttsScheduled_append noOverlap_snoc)

lemma gapless_queueSeq:
  "list_all (\<lambda>(b, e). list_all noClick (duringDecode e)) qs \<Longrightarrow>
   gapless (ttsScheduled (ttsLog s)) (nextTtsStartTimeRef s) \<Longrightarrow>
   gapless (ttsScheduled (ttsLog (queueSeq s qs))) (nextTtsStartTimeRef (queueSeq s qs))"
  by (induction qs arbitrary: s) (auto simp: gapless_queueAndPlayAudio)

lemma queueAndPlayAudio_ok:
  assumes "ttsAudioContextRef (getTtsAudioContext s (audioContextAvailable env)) \<noteq> None"
    and "list_all noClick (duringDecode env)" and "decodeResult (audio env) = Some d"
  shows "snd (queueAndPlayAudio s b env) = None \<and>
         ttsLog (fst (queueAndPlayAudio s b env)) =
           ttsLog s @ [TtsSourceStart (max (nextTtsStartTimeRef s) (currentTime (audio env))) d] \<and>
         nextTtsStartTimeRef (fst (queueAndPlayAudio s b env)) =
           max (nextTtsStartTimeRef s) (currentTime (audio env)) + d"
proof -
  let ?s1 = "getTtsAudioContext s (audioContextAvailable env)"
  from assms(1) obtain ctx where c: "ttsAudioContextRef ?s1 = Some ctx" by blast
  have s1: "ttsLog ?s1 = ttsLog s" "nextTtsStartTimeRef ?s1 = nextTtsStartTimeRef s"
    by (simp_all add: getTtsAudioContext_def)
  let ?s2 = "(if ctx = Suspended then ?s1\<lparr>ttsAudioContextRef := Some Running\<rparr> else ?s1)"
  let ?s3 = "pageSteps ?s2 (duringDecode env)"
  obtain xs st a where "?s3 =
      ?s2\<lparr>ttsAudioSourcesRef := xs, ttsStatus := st, activeSentenceIndex := a\<rparr>"
    using pageSteps_noClick [OF assms(2)] by blast
  then have s3: "ttsLog ?s3 = ttsLog s" "nextTtsStartTimeRef ?s3 = nextTtsStartTimeRef s"
    using s1 by simp_all
  let ?t = "max (nextTtsStartTimeRef ?s3) (currentTime (audio env))"
  from c assms(3) have "queueAndPlayAudio s b env =
      (?s3\<lparr>ttsLog := ttsLog ?s3 @ [TtsSourceStart ?t d],
           nextTtsStartTimeRef := ?t + d,
           ttsAudioSourcesRef := ttsAudioSourcesRef ?s3 @ [\<lparr>duration = d, startedAt = Some ?t\<rparr>]\<rparr>,
       None)"
    by (simp add: queueAndPlayAudio_def Let_def)
  with s3 show ?thesis by simp
qed

lemma playAudio_ok:
  assumes "outputAudioContextRef s \<noteq> None" and "decodeResult env = Some d"
  shows "snd (playAudio s b env) = None \<and>
         audioLog (fst (playAudio s b env)) =
           audioLog s @ [SourceStart (max (nextStartTimeRef s) (currentTime env)) d] \<and>
         nextStartTimeRef (fst (playAudio s b env)) =
           max (nextStartTimeRef s) (currentTime env) + d"
  using assms by (auto simp: playAudio_def Let_def)

text \<open>
  Claim C2. An enqueue that finds its audio context and decodes its buffer (\<open>playAudio\<close>
  of the session, \<open>queueAndPlayAudio\<close> of read-aloud) starts the buffer at the later
  of the next start time and the clock, and sets the next start time to that start
  plus the buffer's duration. In the schedule a sequence of enqueue calls on one
  scheduler produces, observed from an empty log, every buffer starts no earlier than the
  one before it ends; and, durations not being negative, the start times follow the call
  order.
\<close>

theorem enqueue_gapless:
  assumes "audioLog s = []" and "ttsLog t = []"
    and "list_all (\<lambda>(b, e). list_all noClick (duringDecode e)) qs"
    and "es = scheduled (audioLog (playAudioSeq s ps))"
    and "fs = ttsScheduled (ttsLog (queueSeq t qs))"
  shows "(outputAudioContextRef s0 \<noteq> None \<and> decodeResult env = Some d \<longrightarrow>
           snd (playAudio s0 b env) = None \<and>
           audioLog (fst (playAudio s0 b env)) =
             audioLog s0 @ [SourceStart (max (nextStartTimeRef s0) (currentTime env)) d] \<and>
           nextStartTimeRef (fst (playAudio s0 b env)) =
             max (nextStartTimeRef s0) (currentTime env) + d) \<and>
         (ttsAudioContextRef (getTtsAudioContext t0 (audioContextAvailable cenv)) \<noteq> None \<and>
          list_all noClick (duringDecode cenv) \<and> decodeResult (audio cenv) = Some d \<longrightarrow>
           snd (queueAndPlayAudio t0 b cenv) = None \<and>
           ttsLog (fst (queueAndPlayAudio t0 b cenv)) =
             ttsLog t0 @
               [TtsSourceStart (max (nextTtsStartTimeRef t0) (currentTime (audio cenv))) d] \<and>
           nextTtsStartTimeRef (fst (queueAndPlayAudio t0 b cenv)) =
             max (nextTtsStartTimeRef t0) (currentTime (audio cenv)) + d) \<and>
         (\<forall>k. Suc k < length es \<longrightarrow> fst (es ! k) + snd (es ! k) \<le> fst (es ! Suc k)) \<and>
         (\<forall>k. Suc k < length fs \<longrightarrow> fst (fs ! k) + snd (fs ! k) \<le> fst (fs ! Suc k)) \<and>
         ((\<forall>e\<in>set es. 0 \<le> snd e) \<longrightarrow> sorted (map fst es)) \<and>
         ((\<forall>e\<in>set fs. 0 \<le> snd e) \<longrightarrow> sorted (map fst fs))"
proof -
  have "gapless (scheduled (audioLog s)) (nextStartTimeRef s)"
    using assms(1) by (simp add: gapless_def)
  from gapless_playAudioSeq [OF this, of ps] have e: "noOverlap es"
    unfolding assms(4) by (simp add: gapless_def)
  have "gapless (ttsScheduled (ttsLog t)) (nextTtsStartTimeRef t)"
    using assms(2) by (simp add: gapless_def)
  from gapless_queueSeq [OF assms(3) this] have f: "noOverlap fs"
    unfolding assms(5) by (simp add: gapless_def)
  show ?thesis
    using playAudio_ok [of s0 env d b] queueAndPlayAudio_ok [of t0 cenv d b]
      noOverlap_nth [OF e] noOverlap_nth [OF f] noOverlap_sorted [OF e] noOverlap_sorted [OF f]
    by blast
qed

lemma demo_schedules:
  "scheduled (audioLog (playAudioSeq (startSession initialState demoStart) buffersToPlay)) =
     [(1, 2), (3, 1), (5, 1)]"
  "ttsScheduled (ttsLog (queueSeq initialTts buffersToQueue)) = [(1, 2), (3, 1), (5, 1)]"
  "audioLog (startSession initialState demoStart) = []"
  "ttsLog initialTts = []"
  "list_all (\<lambda>(b, e). list_all noClick (duringDecode e)) buffersToQueue"
  by code_simp+

theorem enqueue_gapless_witness:
  "scheduled (audioLog (playAudioSeq (startSession initialState demoStart) buffersToPlay)) =
     [(1, 2), (3, 1), (5, 1)] \<and>
   ttsScheduled (ttsLog (queueSeq initialTts buffersToQueue)) = [(1, 2), (3, 1), (5, 1)] \<and>
   sorted (map fst (scheduled (audioLog
     (playAudioSeq (startSession initialState demoStart) buffersToPlay)))) \<and>
   sorted (map fst (ttsScheduled (ttsLog (queueSeq initialTts buffersToQueue))))"
proof -
  note t = enqueue_gapless [where ps = buffersToPlay and qs = buffersToQueue,
      OF demo_schedules(3) demo_schedules(4) demo_schedules(5) refl refl]
  have 1: "\<forall>e\<in>set (scheduled (audioLog
     (playAudioSeq (startSession initialState demoStart) buffersToPlay))). 0 \<le> snd e"
    by (simp add: demo_schedules(1))
  have 2: "\<forall>e\<in>set (ttsScheduled (ttsLog (queueSeq initialTts buffersToQueue))). 0 \<le> snd e"
    by (simp add: demo_schedules(2))
  from t 1 2 demo_schedules(1,2) show ?thesis by blast
qed










lemma startRun_log:
  "startRun s contextText selection = Some (s2, chunks) \<Longrightarrow> ttsLog s2 = ttsLog s"
  by (auto simp: startRun_def Let_def split: if_splits option.splits)













lemma startRun_early:
  "startRun s contextText selection = Some (s2, []) \<Longrightarrow> ttsLog s2 = ttsLog s"
  by (rule startRun_log)










end
